theory Spec2Isabelle
  imports Main "HOL-Library.Word"
begin

section \<open>The pass framework of \<^verbatim>\<open>paddle/pir/pass/pass.h\<close>\<close>

text \<open>
  The header declares three things: the per-run execution state of a pass
  (\<^verbatim>\<open>detail::PassExecutionState\<close>), the static description of a pass
  (\<^verbatim>\<open>detail::PassInfo\<close>) and the classes \<^verbatim>\<open>Pass\<close> and
  \<^verbatim>\<open>PatternRewritePass\<close>. Pointers to operations and the analysis manager are
  kept abstract (type variables \<open>'ptr\<close> and \<open>'am\<close>): the header only stores and
  returns them.
\<close>

subsection \<open>Errors\<close>

text \<open>
  \<^verbatim>\<open>IR_ENFORCE(cond, fmt, args...)\<close> throws when \<open>cond\<close> is false. The macro itself is
  not part of the header; what the header fixes is the condition and the message, so the
  exception is a value carrying the formatted message.
\<close>

datatype error = EnforceNotMet string

definition IR_ENFORCE :: "bool \<Rightarrow> string \<Rightarrow> error + unit" where
  "IR_ENFORCE cond msg = (if cond then Inr () else Inl (EnforceNotMet msg))"

text \<open>
  A call that may throw, followed by the rest of the caller's code: the rest runs on
  what the call returned, and does not run when the call threw.
\<close>

definition and_then :: "error + 'a \<Rightarrow> ('a \<Rightarrow> error + 'b) \<Rightarrow> error + 'b" where
  "and_then r rest = (case r of Inl e \<Rightarrow> Inl e | Inr v \<Rightarrow> rest v)"

subsection \<open>Execution state and pass description\<close>

text \<open>
  Modelled from the spec: \<^verbatim>\<open>PreservedAnalyses\<close> (declared in
  \<^verbatim>\<open>analysis_manager.h\<close>, which is not among the sources) is the set of analysis
  kinds a pass declares preserved; a default-constructed one is empty.
\<close>

type_synonym PreservedAnalyses = "string set"

definition PreservedAnalyses_default :: PreservedAnalyses where
  "PreservedAnalyses_default = {}"

record ('ptr, 'am) PassExecutionState =
  ir :: 'ptr
  pass_failed :: bool
  am :: 'am
  preserved_analyses :: PreservedAnalyses

text \<open>
  The constructor \<^verbatim>\<open>PassExecutionState(Operation* ir, const AnalysisManager& am)\<close>
  with its initialiser list \<^verbatim>\<open>ir(ir), pass_failed(false), am(am)\<close>;
  \<^verbatim>\<open>preserved_analyses\<close> is default-constructed.
\<close>

definition mk_PassExecutionState :: "'ptr \<Rightarrow> 'am \<Rightarrow> ('ptr, 'am) PassExecutionState" where
  "mk_PassExecutionState ir0 am0 =
     \<lparr>ir = ir0, pass_failed = False, am = am0,
      preserved_analyses = PreservedAnalyses_default\<rparr>"

record PassInfo =
  name :: string
  opt_level :: "8 word"
  dependents :: "string list"

definition mk_PassInfo :: "string \<Rightarrow> 8 word \<Rightarrow> string list \<Rightarrow> PassInfo" where
  "mk_PassInfo n lvl deps = \<lparr>name = n, opt_level = lvl, dependents = deps\<rparr>"

subsection \<open>Class \<^verbatim>\<open>Pass\<close>\<close>

text \<open>
  The two private members \<^verbatim>\<open>pass_info_\<close> and \<^verbatim>\<open>pass_state_\<close> (a name
  cannot end in an underscore here, hence the suffix \<open>m\<close>). The state is a
  \<^verbatim>\<open>std::optional\<close>, empty after construction.
\<close>

record ('ptr, 'am) Pass =
  pass_info_m :: PassInfo
  pass_state_m :: "('ptr, 'am) PassExecutionState option"

definition mk_Pass :: "string \<Rightarrow> 8 word \<Rightarrow> string list \<Rightarrow> ('ptr, 'am) Pass" where
  "mk_Pass n lvl deps = \<lparr>pass_info_m = mk_PassInfo n lvl deps, pass_state_m = None\<rparr>"

definition pass_info :: "('ptr, 'am, 'z) Pass_scheme \<Rightarrow> PassInfo" where
  "pass_info p = pass_info_m p"

definition pass_name :: "('ptr, 'am, 'z) Pass_scheme \<Rightarrow> string" where
  "pass_name p = name (pass_info p)"

text \<open>
  \<^verbatim>\<open>pass_state()\<close>: the enforce, then the dereference of the optional. Past the
  enforce the optional holds a value, so the last branch is never taken.
\<close>

definition pass_state ::
  "('ptr, 'am, 'z) Pass_scheme \<Rightarrow> error + ('ptr, 'am) PassExecutionState" where
  "pass_state p =
     (case IR_ENFORCE (pass_state_m p \<noteq> None) ''pass state has no value'' of
        Inl e \<Rightarrow> Inl e
      | Inr _ \<Rightarrow> (case pass_state_m p of Some st \<Rightarrow> Inr st
                  | None \<Rightarrow> Inl (EnforceNotMet ''pass state has no value'')))"

text \<open>\<^verbatim>\<open>analysis_manager()\<close> returns \<^verbatim>\<open>pass_state().am\<close>.\<close>

definition analysis_manager :: "('ptr, 'am, 'z) Pass_scheme \<Rightarrow> error + 'am" where
  "analysis_manager p = (case pass_state p of Inl e \<Rightarrow> Inl e | Inr st \<Rightarrow> Inr (am st))"

text \<open>
  \<^verbatim>\<open>SignalPassFailure()\<close> assigns \<^verbatim>\<open>pass_state().pass_failed = true\<close>: the state
  reached through the reference is updated in place, so the new pass holds the updated
  state.
\<close>

definition SignalPassFailure ::
  "('ptr, 'am, 'z) Pass_scheme \<Rightarrow> error + ('ptr, 'am, 'z) Pass_scheme" where
  "SignalPassFailure p =
     (case pass_state p of
        Inl e \<Rightarrow> Inl e
      | Inr st \<Rightarrow> Inr (p\<lparr>pass_state_m := Some (st\<lparr>pass_failed := True\<rparr>)\<rparr>))"

text \<open>The base-class \<^verbatim>\<open>Initialize\<close> returns true and changes nothing.\<close>

definition Pass_Initialize :: "('ptr, 'am, 'z) Pass_scheme \<Rightarrow> 'ctx \<Rightarrow> bool" where
  "Pass_Initialize p context = True"

text \<open>
  The member functions of \<^verbatim>\<open>Pass\<close> that a pass can call on itself during a run,
  as a datatype, and the effect of a call on the pass object; a call that throws ends
  the sequence with its exception.
  \<^item> \<^verbatim>\<open>pass_state()\<close> returns a non-const reference to the state, whose members
    are public: the caller may read through it or assign through it. The call carries
    what the caller does to the state through the reference (the identity for a read).
  \<^item> \<^verbatim>\<open>Initialize\<close> is virtual: the call carries the body that runs, the base one
    or an override, which may throw or return with the object changed.
  \<^item> \<^verbatim>\<open>CanApplyOn\<close> is a \<^verbatim>\<open>const\<close> member and leaves the object as it is, as
    do the accessors.
\<close>

datatype ('ptr, 'am, 'z) pass_call =
    Call_name
  | Call_pass_info
  | Call_analysis_manager
  | Call_pass_state "('ptr, 'am) PassExecutionState \<Rightarrow> ('ptr, 'am) PassExecutionState"
  | Call_SignalPassFailure
  | Call_CanApplyOn
  | Call_Initialize "('ptr, 'am, 'z) Pass_scheme \<Rightarrow> error + (bool \<times> ('ptr, 'am, 'z) Pass_scheme)"

fun exec_call ::
  "('ptr, 'am, 'z) Pass_scheme \<Rightarrow> ('ptr, 'am, 'z) pass_call
   \<Rightarrow> error + ('ptr, 'am, 'z) Pass_scheme" where
  "exec_call p Call_name = Inr p"
| "exec_call p Call_pass_info = Inr p"
| "exec_call p Call_analysis_manager =
     (case analysis_manager p of Inl e \<Rightarrow> Inl e | Inr _ \<Rightarrow> Inr p)"
| "exec_call p (Call_pass_state through_reference) =
     (case pass_state p of
        Inl e \<Rightarrow> Inl e
      | Inr st \<Rightarrow> Inr (p\<lparr>pass_state_m := Some (through_reference st)\<rparr>))"
| "exec_call p Call_SignalPassFailure = SignalPassFailure p"
| "exec_call p Call_CanApplyOn = Inr p"
| "exec_call p (Call_Initialize body) =
     (case body p of Inl e \<Rightarrow> Inl e | Inr (ok, p') \<Rightarrow> Inr p')"

fun exec_calls ::
  "('ptr, 'am, 'z) Pass_scheme \<Rightarrow> ('ptr, 'am, 'z) pass_call list
   \<Rightarrow> error + ('ptr, 'am, 'z) Pass_scheme" where
  "exec_calls p [] = Inr p"
| "exec_calls p (c # cs) =
     (case exec_call p c of Inl e \<Rightarrow> Inl e | Inr p' \<Rightarrow> exec_calls p' cs)"

text \<open>
  A call that does not un-signal a failure: what it assigns through the reference of
  \<^verbatim>\<open>pass_state()\<close> keeps a set flag set, and an \<^verbatim>\<open>Initialize\<close> body that
  returns, run on a pass whose flag is set, leaves it set. The other calls write
  nothing, or write true.
\<close>

fun keeps_failure :: "('ptr, 'am, 'z) pass_call \<Rightarrow> bool" where
  "keeps_failure (Call_pass_state through_reference) =
     (\<forall>st. pass_failed st \<longrightarrow> pass_failed (through_reference st))"
| "keeps_failure (Call_Initialize body) =
     (\<forall>p ok p' st. body p = Inr (ok, p') \<and> pass_state_m p = Some st \<and> pass_failed st \<longrightarrow>
        (\<exists>st'. pass_state_m p' = Some st' \<and> pass_failed st'))"
| "keeps_failure c = True"

text \<open>The flag as a caller reads it: \<^verbatim>\<open>pass_state().pass_failed\<close>.\<close>

definition read_pass_failed :: "('ptr, 'am, 'z) Pass_scheme \<Rightarrow> error + bool" where
  "read_pass_failed p =
     (case pass_state p of Inl e \<Rightarrow> Inl e | Inr st \<Rightarrow> Inr (pass_failed st))"

section \<open>Pattern sets and the configuration of the rewrite driver\<close>

text \<open>
  Modelled from the spec: the pattern types of \<^verbatim>\<open>pattern_rewrite/\<close>, which the
  header includes and which are not among the sources. A rewrite rule is scoped to one
  operation kind and carries a benefit; applied to a region (of an abstract type \<open>'g\<close>)
  at an operation, it either does not match or gives the rewritten region together with
  the operations it created or modified. A \<^verbatim>\<open>RewritePatternSet\<close> is the mutable
  builder, holding the rules in registration order; sealing it gives the immutable
  \<^verbatim>\<open>FrozenRewritePatternSet\<close>.
\<close>

record 'g RewritePattern =
  root_kind :: string
  benefit :: nat
  match_and_rewrite :: "'g \<Rightarrow> nat \<Rightarrow> ('g \<times> nat list) option"

type_synonym 'g RewritePatternSet = "'g RewritePattern list"

definition Empty :: "'g RewritePatternSet \<Rightarrow> bool" where
  "Empty ps = (ps = [])"

datatype 'g FrozenRewritePatternSet = FrozenRewritePatternSet (frozen_rules: "'g RewritePatternSet")

text \<open>
  Modelled from the spec: \<^verbatim>\<open>GreedyRewriteConfig\<close> (declared with the driver, not
  among the sources) holds the traversal-order flag and the iteration bound. The record
  is extensible, so that whatever else a default-constructed configuration holds stays
  as it was constructed.
\<close>

record GreedyRewriteConfig =
  use_top_down_traversal :: bool
  max_iterations :: int

section \<open>Class \<^verbatim>\<open>PatternRewritePass\<close>\<close>

text \<open>
  The subclass adds the private member \<^verbatim>\<open>patterns_\<close>, default-constructed (no
  rules) until \<^verbatim>\<open>Initialize\<close> assigns it.
\<close>

record ('ptr, 'am, 'g) PatternRewritePass = "('ptr, 'am) Pass" +
  patterns_m :: "'g FrozenRewritePatternSet"

definition mk_PatternRewritePass ::
  "string \<Rightarrow> 8 word \<Rightarrow> string list \<Rightarrow> ('ptr, 'am, 'g) PatternRewritePass" where
  "mk_PatternRewritePass n lvl deps =
     \<lparr>pass_info_m = mk_PassInfo n lvl deps, pass_state_m = None,
      patterns_m = FrozenRewritePatternSet []\<rparr>"

text \<open>The message of the enforce in \<^verbatim>\<open>Initialize\<close>, with the pass name for \<^verbatim>\<open>%s\<close>.\<close>

definition no_patterns_message :: "string \<Rightarrow> string" where
  "no_patterns_message n =
     ''Pass creation failed.'' @
     ''When using PatternRewritePass to create a Pass, the number of '' @
     ''customized Patterns is required to be greater than zero.'' @
     ''Suggested fix: Check whether Pattern is added to the '' @
     ''InitializePatterns() function of class ['' @ n @ '']''"

text \<open>
  \<^verbatim>\<open>Initialize\<close>. The pure virtual \<^verbatim>\<open>InitializePatterns\<close> is the parameter
  \<open>InitializePatterns\<close>. The result is the exception, or the returned boolean with the
  pass object after the assignment to \<^verbatim>\<open>patterns_\<close>.
\<close>

definition PatternRewritePass_Initialize ::
  "('ctx \<Rightarrow> 'g RewritePatternSet) \<Rightarrow> ('ptr, 'am, 'g, 'z) PatternRewritePass_scheme \<Rightarrow> 'ctx
   \<Rightarrow> error + (bool \<times> ('ptr, 'am, 'g, 'z) PatternRewritePass_scheme)" where
  "PatternRewritePass_Initialize InitializePatterns p context =
     (let ps = InitializePatterns context in
      case IR_ENFORCE (Empty ps = False) (no_patterns_message (pass_name p)) of
        Inl e \<Rightarrow> Inl e
      | Inr _ \<Rightarrow> Inr (True, p\<lparr>patterns_m := FrozenRewritePatternSet ps\<rparr>))"

text \<open>
  \<^verbatim>\<open>Run\<close>. Three things it uses are declared outside the header and are
  parameters: the driver \<^verbatim>\<open>ApplyPatternsGreedily\<close> (the parameter \<open>driver\<close>), the
  accessor \<^verbatim>\<open>Operation::region\<close> (giving a reference of type \<open>'rref\<close> to a region
  of the operation) and the default-constructed configuration \<open>cfg_init\<close>. The driver
  works on the IR (type \<open>'ir\<close>) through the region reference it is handed;
  \<^verbatim>\<open>Run\<close> returns nothing and drops what the driver returns, so its effect is
  the driver's.
\<close>

definition PatternRewritePass_Run ::
  "('rref \<Rightarrow> 'g FrozenRewritePatternSet \<Rightarrow> 'c GreedyRewriteConfig_scheme \<Rightarrow> 'ir \<Rightarrow> 'res)
   \<Rightarrow> ('ptr \<Rightarrow> nat \<Rightarrow> 'rref) \<Rightarrow> 'c GreedyRewriteConfig_scheme
   \<Rightarrow> ('ptr, 'am, 'g, 'z) PatternRewritePass_scheme \<Rightarrow> 'ptr \<Rightarrow> 'ir \<Rightarrow> 'res" where
  "PatternRewritePass_Run driver region cfg_init p opn prog =
     (let cfg = cfg_init\<lparr>use_top_down_traversal := True\<rparr>;
          cfg = cfg\<lparr>max_iterations := 10\<rparr>
      in driver (region opn 0) (patterns_m p) cfg prog)"

section \<open>The greedy pattern-rewrite driver\<close>

text \<open>
  Modelled from the spec: the driver \<^verbatim>\<open>ApplyPatternsGreedily\<close> is declared in
  \<^verbatim>\<open>pattern_rewrite_driver.h\<close>, which is not among the sources; what follows is
  the algorithm of the spec's section 4.4, over the capabilities it asks of the IR
  (section 6): enumerate the operations of a region in definition order, tell whether
  an operation has been erased, give the kind of an operation and the users of its
  results. Operations are identified by numbers.
\<close>

record 'g GraphInterface =
  region_operations :: "'g \<Rightarrow> nat list"
  erased :: "'g \<Rightarrow> nat \<Rightarrow> bool"
  operation_kind :: "'g \<Rightarrow> nat \<Rightarrow> string"
  users :: "'g \<Rightarrow> nat \<Rightarrow> nat list"

text \<open>
  Modelled from the spec: the state of the driver (not among the sources) while it works
  off the worklist: the region; the worklist, popped at the head and pushed at the end;
  how many operations of the current sweep are still on it; the iteration counter, which
  counts the sweeps completed; and the rule applications so far, each as the operation
  and the registration index of the rule. A sweep is one pass over the worklist as it
  stands when the sweep begins: the seeded operations in the first sweep, the operations
  re-queued meanwhile in the next. The result tells where the driver stopped, whether
  it converged (the worklist is empty) and what is left on the worklist.
\<close>

record 'g DriverState =
  graph :: 'g
  worklist :: "nat list"
  remaining :: nat
  iteration :: nat
  applied :: "(nat \<times> nat) list"

record 'g DriverResult =
  result_graph :: 'g
  converged :: bool
  rule_applications :: "(nat \<times> nat) list"
  sweeps_done :: nat
  pending :: "nat list"

text \<open>
  Modelled from the spec: step 1 of the driver (not among the sources). The worklist is
  seeded with all operations of the region, top-down or bottom-up.
\<close>

definition seed :: "'g GraphInterface \<Rightarrow> bool \<Rightarrow> 'g \<Rightarrow> nat list" where
  "seed G top_down g =
     (if top_down then region_operations G g else rev (region_operations G g))"

text \<open>
  Modelled from the spec: step 2b of the driver (not among the sources). The rules of
  the operation's kind, in descending order of benefit, rules of equal benefit in
  registration order (\<open>sort_key\<close> is a stable insertion sort); each rule with its
  registration index.
\<close>

definition candidates ::
  "'g FrozenRewritePatternSet \<Rightarrow> string \<Rightarrow> (nat \<times> 'g RewritePattern) list" where
  "candidates ps k =
     sort_key (\<lambda>c. - int (benefit (snd c)))
       (filter (\<lambda>c. root_kind (snd c) = k) (enumerate 0 (frozen_rules ps)))"

text \<open>
  Modelled from the spec: step 2c of the driver (not among the sources). The first rule,
  in that order, whose match succeeds.
\<close>

fun first_match ::
  "(nat \<times> 'g RewritePattern) list \<Rightarrow> 'g \<Rightarrow> nat \<Rightarrow> (nat \<times> 'g \<times> nat list) option" where
  "first_match [] g opn = None"
| "first_match (c # cs) g opn =
     (case match_and_rewrite (snd c) g opn of
        None \<Rightarrow> first_match cs g opn
      | Some res \<Rightarrow> Some (fst c, res))"

text \<open>
  Modelled from the spec: the re-queue of step 2c of the driver (not among the sources).
  Every created or modified operation, each followed by its users.
\<close>

definition requeue :: "'g GraphInterface \<Rightarrow> 'g \<Rightarrow> nat list \<Rightarrow> nat list" where
  "requeue G g touched = concat (map (\<lambda>t. t # users G g t) touched)"

text \<open>
  Modelled from the spec: step 3 of the driver (not among the sources), the count of the
  sweeps, after a pop. One full sweep counts as one iteration, and the spec (sections 7
  and 8) has the driver stop at the bound, the worklist not empty, on a rule that keeps
  re-triggering itself: so an operation re-queued during a sweep is counted with the
  next sweep. With the last operation of the current sweep popped, the sweep is
  complete: the iteration counter goes up by one and the next sweep is over what the
  worklist now holds.
\<close>

definition count_pop :: "'g DriverState \<Rightarrow> 'g DriverState" where
  "count_pop s =
     (if remaining s \<le> 1
      then s\<lparr>remaining := length (worklist s), iteration := Suc (iteration s)\<rparr>
      else s\<lparr>remaining := remaining s - 1\<rparr>)"

text \<open>
  Modelled from the spec: steps 2a to 2d of the driver (not among the sources), for the
  operation at the head of the worklist. An erased operation is skipped; an operation on
  which no rule matches is dropped from the worklist; otherwise the first matching rule
  is applied and what it touched is pushed back.
\<close>

definition process_operation ::
  "'g GraphInterface \<Rightarrow> 'g FrozenRewritePatternSet \<Rightarrow> 'g DriverState \<Rightarrow> 'g DriverState" where
  "process_operation G ps s =
     (case worklist s of
        [] \<Rightarrow> s
      | opn # rest \<Rightarrow>
          count_pop
            (if erased G (graph s) opn then s\<lparr>worklist := rest\<rparr>
             else (case first_match (candidates ps (operation_kind G (graph s) opn)) (graph s) opn of
                     None \<Rightarrow> s\<lparr>worklist := rest\<rparr>
                   | Some (i, g', touched) \<Rightarrow>
                       s\<lparr>graph := g', worklist := rest @ requeue G g' touched,
                         applied := applied s @ [(opn, i)]\<rparr>)))"

text \<open>
  Modelled from the spec: the loop of step 2 of the driver (not among the sources), with
  its two exits: repeat until the worklist is empty or the iteration counter reaches
  the bound. The loop is written as it stands, as a partial function (\<open>None\<close> would
  be a loop that never ends); that it always ends is proved below.
\<close>

partial_function (option) process_worklist ::
  "'g GraphInterface \<Rightarrow> 'g FrozenRewritePatternSet \<Rightarrow> nat \<Rightarrow> 'g DriverState
   \<Rightarrow> 'g DriverState option" where
  "process_worklist G ps bound s =
     (if worklist s = [] \<or> bound \<le> iteration s then Some s
      else process_worklist G ps bound (process_operation G ps s))"

declare process_worklist.simps [code]

text \<open>
  Modelled from the spec: the state in which the driver (not among the sources) starts,
  with the seeded worklist, and the result it reports from the state it stops in.
  Stopping at the bound with operations left on the worklist is reported as a result
  that has not converged, not as an error.
\<close>

definition initial_state :: "'g GraphInterface \<Rightarrow> bool \<Rightarrow> 'g \<Rightarrow> 'g DriverState" where
  "initial_state G top_down g =
     \<lparr>graph = g, worklist = seed G top_down g, remaining = length (seed G top_down g),
      iteration = 0, applied = []\<rparr>"

definition result_of :: "'g DriverState \<Rightarrow> 'g DriverResult" where
  "result_of s =
     \<lparr>result_graph = graph s, converged = (worklist s = []),
      rule_applications = applied s, sweeps_done = iteration s, pending = worklist s\<rparr>"

text \<open>
  Modelled from the spec: the entry point \<^verbatim>\<open>ApplyPatternsGreedily\<close> (not among the
  sources), on a region, a frozen pattern set and a configuration. A negative bound
  allows no sweep.
\<close>

definition ApplyPatternsGreedily ::
  "'g GraphInterface \<Rightarrow> 'g \<Rightarrow> 'g FrozenRewritePatternSet \<Rightarrow> 'c GreedyRewriteConfig_scheme
   \<Rightarrow> 'g DriverResult option" where
  "ApplyPatternsGreedily G g ps cfg =
     map_option result_of
       (process_worklist G ps (nat (max_iterations cfg))
          (initial_state G (use_top_down_traversal cfg) g))"

subsection \<open>The same algorithm as a relation\<close>

text \<open>
  Modelled from the spec: what section 4.4 allows a driver (not among the sources) to do,
  without fixing how the rule is found. Rule \<open>i\<close> is the one to apply at an operation
  when it is of the operation's kind, its match succeeds, and every other matching rule
  of that kind has a smaller benefit, or the same benefit and a later registration.
\<close>

definition matches :: "'g FrozenRewritePatternSet \<Rightarrow> string \<Rightarrow> 'g \<Rightarrow> nat \<Rightarrow> nat \<Rightarrow> bool" where
  "matches ps k g opn j \<longleftrightarrow>
     j < length (frozen_rules ps) \<and> root_kind (frozen_rules ps ! j) = k \<and>
     match_and_rewrite (frozen_rules ps ! j) g opn \<noteq> None"

definition selects :: "'g FrozenRewritePatternSet \<Rightarrow> string \<Rightarrow> 'g \<Rightarrow> nat \<Rightarrow> nat \<Rightarrow> bool" where
  "selects ps k g opn i \<longleftrightarrow>
     matches ps k g opn i \<and>
     (\<forall>j \<in> set [0..<length (frozen_rules ps)]. matches ps k g opn j \<longrightarrow>
        benefit (frozen_rules ps ! j) < benefit (frozen_rules ps ! i) \<or>
        (benefit (frozen_rules ps ! j) = benefit (frozen_rules ps ! i) \<and> i \<le> j))"

text \<open>
  Modelled from the spec: the steps and the runs that section 4.4 allows a driver (not
  among the sources). A step pops an erased operation, or an operation no rule matches,
  or applies the selected rule and pushes back what it touched; a run is steps from the
  seeded worklist up to the empty worklist or up to the bound on the iteration counter,
  whichever comes first.
\<close>

inductive rewrite_step ::
  "'g GraphInterface \<Rightarrow> 'g FrozenRewritePatternSet \<Rightarrow> 'g DriverState \<Rightarrow> 'g DriverState \<Rightarrow> bool"
  for G ps where
  skip_erased:
    "worklist s = opn # rest \<Longrightarrow> erased G (graph s) opn \<Longrightarrow>
     rewrite_step G ps s (count_pop (s\<lparr>worklist := rest\<rparr>))"
| no_match:
    "worklist s = opn # rest \<Longrightarrow> \<not> erased G (graph s) opn \<Longrightarrow>
     \<forall>j. \<not> matches ps (operation_kind G (graph s) opn) (graph s) opn j \<Longrightarrow>
     rewrite_step G ps s (count_pop (s\<lparr>worklist := rest\<rparr>))"
| apply_rule:
    "worklist s = opn # rest \<Longrightarrow> \<not> erased G (graph s) opn \<Longrightarrow>
     selects ps (operation_kind G (graph s) opn) (graph s) opn i \<Longrightarrow>
     match_and_rewrite (frozen_rules ps ! i) (graph s) opn = Some (g', touched) \<Longrightarrow>
     rewrite_step G ps s
       (count_pop (s\<lparr>graph := g', worklist := rest @ requeue G g' touched,
                     applied := applied s @ [(opn, i)]\<rparr>))"

inductive greedy_steps ::
  "'g GraphInterface \<Rightarrow> 'g FrozenRewritePatternSet \<Rightarrow> nat \<Rightarrow> 'g DriverState \<Rightarrow> 'g DriverState
   \<Rightarrow> bool"
  for G ps bound where
  stop: "worklist s = [] \<or> bound \<le> iteration s \<Longrightarrow> greedy_steps G ps bound s s"
| step: "worklist s \<noteq> [] \<Longrightarrow> iteration s < bound \<Longrightarrow> rewrite_step G ps s s' \<Longrightarrow>
         greedy_steps G ps bound s' s'' \<Longrightarrow> greedy_steps G ps bound s s''"

definition greedy_run ::
  "'g GraphInterface \<Rightarrow> 'g \<Rightarrow> 'g FrozenRewritePatternSet \<Rightarrow> 'c GreedyRewriteConfig_scheme
   \<Rightarrow> 'g DriverResult \<Rightarrow> bool" where
  "greedy_run G g ps cfg r \<longleftrightarrow>
     (\<exists>s. greedy_steps G ps (nat (max_iterations cfg))
            (initial_state G (use_top_down_traversal cfg) g) s \<and> r = result_of s)"

section \<open>The Pass Manager\<close>

text \<open>
  Modelled from the spec: \<^verbatim>\<open>Pass::CanApplyOn\<close> is declared in the header
  without a body (it is defined in a source file that is not among the sources); the
  spec gives the default as true.
\<close>

definition Pass_CanApplyOn :: "('ptr, 'am, 'z) Pass_scheme \<Rightarrow> 'ptr \<Rightarrow> 'ir \<Rightarrow> bool" where
  "Pass_CanApplyOn p opn prog = True"

text \<open>
  Modelled from the spec: the Pass Manager (a friend class of \<^verbatim>\<open>Pass\<close>, not
  among the sources), as the spec's section 4.2 and section 7 describe it. A managed
  pass is a pass object with its three virtual functions. \<^verbatim>\<open>Run\<close> may return
  (with the pass object and the IR as it left them), throw, or not return at all.
\<close>

datatype 'a returns = Returns 'a | Throws error | Diverges

record ('ptr, 'am, 'z, 'ctx, 'ir) PassMethods =
  Run_m :: "('ptr, 'am, 'z) Pass_scheme \<Rightarrow> 'ptr \<Rightarrow> 'ir
            \<Rightarrow> (('ptr, 'am, 'z) Pass_scheme \<times> 'ir) returns"
  CanApplyOn_m :: "('ptr, 'am, 'z) Pass_scheme \<Rightarrow> 'ptr \<Rightarrow> 'ir \<Rightarrow> bool"
  Initialize_m :: "('ptr, 'am, 'z) Pass_scheme \<Rightarrow> 'ctx
            \<Rightarrow> error + (bool \<times> ('ptr, 'am, 'z) Pass_scheme)"

type_synonym ('ptr, 'am, 'z, 'ctx, 'ir) ManagedPass =
  "('ptr, 'am, 'z, 'ctx, 'ir) PassMethods \<times> ('ptr, 'am, 'z) Pass_scheme"

text \<open>
  Modelled from the spec: the reporting surface of the manager (not among the sources).
  What the manager did, in order (each call with the position of the pass in the list),
  and how the run ended.
\<close>

datatype event =
    CanApplyOn_called nat bool
  | Initialize_called nat
  | Run_called nat

datatype outcome =
    Completed
  | UnsatisfiedDependency string string
  | NotApplicable nat
  | InitializeRaised nat error
  | InitializeFailed nat
  | RunRaised nat error
  | RunNotReturned nat
  | PassFailed nat string

record ('am, 'ir) ManagerResult =
  events :: "event list"
  outcome :: outcome
  final_ir :: 'ir
  final_am :: 'am

text \<open>
  Modelled from the spec: the validation of the manager (not among the sources) before
  anything runs. Every dependent a pass declares must be the name of a pass earlier in
  the list. The result is the first pass with an unsatisfied dependent, and that
  dependent.
\<close>

fun first_unsatisfied :: "string list \<Rightarrow> PassInfo list \<Rightarrow> (string \<times> string) option" where
  "first_unsatisfied seen [] = None"
| "first_unsatisfied seen (i # rest) =
     (case filter (\<lambda>d. d \<notin> set seen) (dependents i) of
        [] \<Rightarrow> first_unsatisfied (seen @ [name i]) rest
      | d # _ \<Rightarrow> Some (name i, d))"

text \<open>
  Modelled from the spec: the loop of the manager (not among the sources) over the
  passes in order, \<open>k\<close> being the position of the first one: check
  \<^verbatim>\<open>CanApplyOn\<close> (a pass that does not apply is a configuration error), call
  \<^verbatim>\<open>Initialize\<close> (false or an exception aborts before \<^verbatim>\<open>Run\<close>), install a
  fresh execution state, call \<^verbatim>\<open>Run\<close>, read \<^verbatim>\<open>pass_failed\<close> (true aborts the
  rest of the sequence), and apply the preserved analyses to the shared analysis manager
  (\<open>invalidate\<close> is \<^verbatim>\<open>invalidate_all_except\<close>, a parameter).
\<close>

fun run_passes ::
  "(PreservedAnalyses \<Rightarrow> 'am \<Rightarrow> 'am) \<Rightarrow> 'ctx \<Rightarrow> 'ptr \<Rightarrow> nat
   \<Rightarrow> ('ptr, 'am, 'z, 'ctx, 'ir) ManagedPass list \<Rightarrow> 'ir \<Rightarrow> 'am \<Rightarrow> ('am, 'ir) ManagerResult" where
  "run_passes invalidate context root k [] prog a =
     \<lparr>events = [], outcome = Completed, final_ir = prog, final_am = a\<rparr>"
| "run_passes invalidate context root k (mp # rest) prog a =
     (let ms = fst mp; p = snd mp; applicable = CanApplyOn_m ms p root prog in
      if \<not> applicable then
        \<lparr>events = [CanApplyOn_called k False], outcome = NotApplicable k,
         final_ir = prog, final_am = a\<rparr>
      else
        (case Initialize_m ms p context of
           Inl e \<Rightarrow>
             \<lparr>events = [CanApplyOn_called k True, Initialize_called k],
              outcome = InitializeRaised k e, final_ir = prog, final_am = a\<rparr>
         | Inr (ok, p1) \<Rightarrow>
             if \<not> ok then
               \<lparr>events = [CanApplyOn_called k True, Initialize_called k],
                outcome = InitializeFailed k, final_ir = prog, final_am = a\<rparr>
             else
               (let p2 = p1\<lparr>pass_state_m := Some (mk_PassExecutionState root a)\<rparr>;
                    evs = [CanApplyOn_called k True, Initialize_called k, Run_called k]
                in case Run_m ms p2 root prog of
                     Diverges \<Rightarrow>
                       \<lparr>events = evs, outcome = RunNotReturned k,
                        final_ir = prog, final_am = a\<rparr>
                   | Throws e \<Rightarrow>
                       \<lparr>events = evs, outcome = RunRaised k e,
                        final_ir = prog, final_am = a\<rparr>
                   | Returns (p3, prog') \<Rightarrow>
                       (case pass_state p3 of
                          Inl e \<Rightarrow>
                            \<lparr>events = evs, outcome = RunRaised k e,
                             final_ir = prog', final_am = a\<rparr>
                        | Inr st \<Rightarrow>
                            if pass_failed st then
                              \<lparr>events = evs, outcome = PassFailed k (pass_name p3),
                               final_ir = prog', final_am = a\<rparr>
                            else
                              (let r = run_passes invalidate context root (Suc k) rest prog'
                                         (invalidate (preserved_analyses st) a)
                               in r\<lparr>events := evs @ events r\<rparr>)))))"

text \<open>
  Modelled from the spec: a run of the manager (not among the sources) on a list of
  passes: the validation of the dependents, then the passes in order.
\<close>

definition PassManager_Run ::
  "(PreservedAnalyses \<Rightarrow> 'am \<Rightarrow> 'am) \<Rightarrow> 'ctx \<Rightarrow> 'ptr
   \<Rightarrow> ('ptr, 'am, 'z, 'ctx, 'ir) ManagedPass list \<Rightarrow> 'ir \<Rightarrow> 'am \<Rightarrow> ('am, 'ir) ManagerResult" where
  "PassManager_Run invalidate context root passes prog a =
     (case first_unsatisfied [] (map (\<lambda>mp. pass_info (snd mp)) passes) of
        Some (n, d) \<Rightarrow>
          \<lparr>events = [], outcome = UnsatisfiedDependency n d, final_ir = prog, final_am = a\<rparr>
      | None \<Rightarrow> run_passes invalidate context root 0 passes prog a)"

text \<open>
  Modelled from the spec: the IR and the analysis manager with which the manager (not
  among the sources) comes to the pass at position \<open>j\<close> of the list, when the passes
  before it have all run to the end; nothing when the run stops before.
\<close>

fun reached ::
  "(PreservedAnalyses \<Rightarrow> 'am \<Rightarrow> 'am) \<Rightarrow> 'ctx \<Rightarrow> 'ptr \<Rightarrow> nat
   \<Rightarrow> ('ptr, 'am, 'z, 'ctx, 'ir) ManagedPass list \<Rightarrow> 'ir \<Rightarrow> 'am \<Rightarrow> ('ir \<times> 'am) option" where
  "reached invalidate context root j [] prog a = None"
| "reached invalidate context root 0 (mp # rest) prog a = Some (prog, a)"
| "reached invalidate context root (Suc j) (mp # rest) prog a =
     (let r = run_passes invalidate context root 0 [mp] prog a in
      if outcome r = Completed
      then reached invalidate context root j rest (final_ir r) (final_am r)
      else None)"

text \<open>
  A \<^verbatim>\<open>PatternRewritePass\<close> as that manager sees it: the two functions the header
  defines, and \<^verbatim>\<open>CanApplyOn\<close> inherited. The driver's result is the IR after the
  rewriting, or nothing when the driver does not return.
\<close>

definition PatternRewritePass_methods ::
  "('ctx \<Rightarrow> 'g RewritePatternSet)
   \<Rightarrow> ('rref \<Rightarrow> 'g FrozenRewritePatternSet \<Rightarrow> 'c GreedyRewriteConfig_scheme \<Rightarrow> 'ir \<Rightarrow> 'ir option)
   \<Rightarrow> ('ptr \<Rightarrow> nat \<Rightarrow> 'rref) \<Rightarrow> 'c GreedyRewriteConfig_scheme
   \<Rightarrow> ('ptr, 'am, ('g, 'z) PatternRewritePass_ext, 'ctx, 'ir) PassMethods" where
  "PatternRewritePass_methods InitializePatterns driver region cfg_init =
     \<lparr>Run_m = (\<lambda>p opn prog.
          case PatternRewritePass_Run driver region cfg_init p opn prog of
            None \<Rightarrow> Diverges
          | Some prog' \<Rightarrow> Returns (p, prog')),
      CanApplyOn_m = Pass_CanApplyOn,
      Initialize_m = PatternRewritePass_Initialize InitializePatterns\<rparr>"

section \<open>The driver on the IR, and small instances\<close>

text \<open>
  Modelled from the spec: the IR (its classes are not among the sources) as far as
  \<^verbatim>\<open>Run\<close> sees it: every region of every operation with its contents. A region is
  referred to by the operation (a number standing for the pointer) and the index of the
  region in it. The driver rewrites the region it is handed in place.
\<close>

definition region_ref :: "nat \<Rightarrow> nat \<Rightarrow> nat \<times> nat" where
  "region_ref opn i = (opn, i)"

definition greedy_driver ::
  "'g GraphInterface \<Rightarrow> nat \<times> nat \<Rightarrow> 'g FrozenRewritePatternSet \<Rightarrow> 'c GreedyRewriteConfig_scheme
   \<Rightarrow> (nat \<times> nat \<Rightarrow> 'g) \<Rightarrow> (nat \<times> nat \<Rightarrow> 'g) option" where
  "greedy_driver G r ps cfg prog =
     (case ApplyPatternsGreedily G (prog r) ps cfg of
        None \<Rightarrow> None
      | Some res \<Rightarrow> Some (prog(r := result_graph res)))"

text \<open>
  A region holding the single operation 0, of kind \<^verbatim>\<open>add\<close>, never erased and
  without users; the contents of the region (type \<open>'g\<close>) stand for the attributes of
  that operation.
\<close>

definition single_op_interface :: "'g GraphInterface" where
  "single_op_interface =
     \<lparr>region_operations = (\<lambda>g. [0]), erased = (\<lambda>g opn. False),
      operation_kind = (\<lambda>g opn. ''add''), users = (\<lambda>g opn. [])\<rparr>"

text \<open>
  A rule that keeps re-triggering itself: it always matches, flips a boolean attribute
  of the operation and so reports the operation as modified.
\<close>

definition flip_rule :: "bool RewritePattern" where
  "flip_rule =
     \<lparr>root_kind = ''add'', benefit = 1,
      match_and_rewrite = (\<lambda>g opn. Some (\<not> g, [opn]))\<rparr>"

text \<open>
  Three rules on a numeric attribute, each making it smaller: two of benefit 1, which
  match whenever it is positive, and one of benefit 5, which matches from 3 on.
\<close>

definition countdown_rule :: "nat RewritePattern" where
  "countdown_rule =
     \<lparr>root_kind = ''add'', benefit = 1,
      match_and_rewrite = (\<lambda>g opn. if 0 < g then Some (g - 1, [opn]) else None)\<rparr>"

definition reset_rule :: "nat RewritePattern" where
  "reset_rule =
     \<lparr>root_kind = ''add'', benefit = 1,
      match_and_rewrite = (\<lambda>g opn. if 0 < g then Some (0, [opn]) else None)\<rparr>"

definition jump_rule :: "nat RewritePattern" where
  "jump_rule =
     \<lparr>root_kind = ''add'', benefit = 5,
      match_and_rewrite = (\<lambda>g opn. if 3 \<le> g then Some (g - 3, [opn]) else None)\<rparr>"

definition example_patterns :: "nat RewritePatternSet" where
  "example_patterns = [countdown_rule, reset_rule, jump_rule]"

text \<open>The configuration \<^verbatim>\<open>Run\<close> builds, and a pattern-rewrite pass to run.\<close>

definition run_config :: GreedyRewriteConfig where
  "run_config = \<lparr>use_top_down_traversal = True, max_iterations = 10\<rparr>"

definition example_pass :: "(nat, unit, nat) PatternRewritePass" where
  "example_pass = mk_PatternRewritePass ''simplify_add'' 1 []"

text \<open>
  Some default-constructed configuration, an IR in which every region holds the
  attribute 4, and a driver that only resets the region it is handed.
\<close>

definition initial_config :: GreedyRewriteConfig where
  "initial_config = \<lparr>use_top_down_traversal = False, max_iterations = 0\<rparr>"

definition example_ir :: "nat \<times> nat \<Rightarrow> nat" where
  "example_ir = (\<lambda>r. 4)"

definition reset_driver ::
  "nat \<times> nat \<Rightarrow> nat FrozenRewritePatternSet \<Rightarrow> GreedyRewriteConfig
   \<Rightarrow> (nat \<times> nat \<Rightarrow> nat) \<Rightarrow> (nat \<times> nat \<Rightarrow> nat) option" where
  "reset_driver r ps cfg prog = Some (prog(r := 0))"


text \<open>
  The virtual functions of a pattern-rewrite pass that registers the rules \<open>ps\<close>, and
  an analysis manager with nothing to invalidate.
\<close>

definition example_methods ::
  "nat RewritePatternSet
   \<Rightarrow> (nat, unit, (nat, unit) PatternRewritePass_ext, unit, nat \<times> nat \<Rightarrow> nat) PassMethods" where
  "example_methods ps =
     PatternRewritePass_methods (\<lambda>context. ps) (greedy_driver single_op_interface)
       region_ref initial_config"

definition keep_all :: "PreservedAnalyses \<Rightarrow> unit \<Rightarrow> unit" where
  "keep_all pa a = a"

text \<open>
  The same pass with \<^verbatim>\<open>CanApplyOn\<close> overridden to opt out of an IR whose region 0
  of the operation holds the attribute 4.
\<close>

definition opting_out_methods ::
  "nat RewritePatternSet
   \<Rightarrow> (nat, unit, (nat, unit) PatternRewritePass_ext, unit, nat \<times> nat \<Rightarrow> nat) PassMethods" where
  "opting_out_methods ps =
     (example_methods ps)\<lparr>CanApplyOn_m := (\<lambda>p opn prog. prog (region_ref opn 0) \<noteq> 4)\<rparr>"

section \<open>Properties of the execution state\<close>

lemma pass_state_None: "pass_state_m p = None \<Longrightarrow> pass_state p = Inl (EnforceNotMet ''pass state has no value'')"
  by (simp add: pass_state_def IR_ENFORCE_def)

lemma pass_state_Some: "pass_state_m p = Some st \<Longrightarrow> pass_state p = Inr st"
  by (simp add: pass_state_def IR_ENFORCE_def)

lemma read_pass_failed_Some:
  "pass_state_m p = Some st \<Longrightarrow> read_pass_failed p = Inr (pass_failed st)"
  by (simp add: read_pass_failed_def pass_state_Some)

lemma SignalPassFailure_Some:
  "pass_state_m p = Some st \<Longrightarrow>
   SignalPassFailure p = Inr (p\<lparr>pass_state_m := Some (st\<lparr>pass_failed := True\<rparr>)\<rparr>)"
  by (simp add: SignalPassFailure_def pass_state_Some)

lemma SignalPassFailure_Inr_failed:
  assumes "SignalPassFailure p = Inr p'"
  shows "\<exists>st. pass_state_m p' = Some st \<and> pass_failed st"
proof (cases "pass_state_m p")
  case None
  with assms show ?thesis
    by (simp add: SignalPassFailure_def pass_state_None)
next
  case (Some st)
  with assms show ?thesis
    by (auto simp: SignalPassFailure_Some)
qed

text \<open>
  A call that keeps a failure, made on a pass whose flag is set, leaves it set when it
  returns; so does a sequence of such calls.
\<close>

lemma exec_call_keeps_failed:
  assumes "keeps_failure c" and "pass_state_m p = Some st" and "pass_failed st"
    and "exec_call p c = Inr p'"
  shows "\<exists>st'. pass_state_m p' = Some st' \<and> pass_failed st'"
proof (cases c)
  case (Call_Initialize body)
  with assms(4) obtain ok where "body p = Inr (ok, p')"
    by (auto split: sum.splits)
  with assms(1-3) Call_Initialize show ?thesis by simp blast
qed (use assms in \<open>auto simp: analysis_manager_def pass_state_Some SignalPassFailure_Some
       split: sum.splits\<close>)

lemma exec_calls_keep_failed:
  assumes "\<forall>c \<in> set cs. keeps_failure c" and "pass_state_m p = Some st" and "pass_failed st"
    and "exec_calls p cs = Inr q"
  shows "\<exists>st'. pass_state_m q = Some st' \<and> pass_failed st'"
  using assms
proof (induction cs arbitrary: p st)
  case Nil
  then show ?case by simp
next
  case (Cons c cs)
  from Cons.prems(4) obtain p1 where p1: "exec_call p c = Inr p1" "exec_calls p1 cs = Inr q"
    by (auto split: sum.splits)
  from Cons.prems(1) have kc: "keeps_failure c" and kcs: "\<forall>c \<in> set cs. keeps_failure c"
    by simp_all
  from exec_call_keeps_failed [OF kc Cons.prems(2,3) p1(1)]
  obtain s1 where s1: "pass_state_m p1 = Some s1" "pass_failed s1" by blast
  from Cons.IH [OF kcs s1 p1(2)] show ?case .
qed

text \<open>Reading through the reference, any number of times, changes nothing.\<close>

lemma exec_calls_reads:
  assumes "pass_state_m p = Some st"
  shows "exec_calls p (replicate n (Call_pass_state (\<lambda>st. st))) = Inr p"
proof -
  from assms have "p\<lparr>pass_state_m := Some st\<rparr> = p\<lparr>pass_state_m := pass_state_m p\<rparr>"
    by simp
  then have same: "p\<lparr>pass_state_m := Some st\<rparr> = p" by simp
  show ?thesis
    using assms by (induction n) (simp_all add: pass_state_Some same)
qed

text \<open>
  The two bodies of \<^verbatim>\<open>Initialize\<close> in the header keep a failure: the base one changes
  nothing, and the one of \<^verbatim>\<open>PatternRewritePass\<close> throws or assigns only
  \<^verbatim>\<open>patterns_\<close>.
\<close>

lemma Pass_Initialize_keeps_failure:
  "keeps_failure (Call_Initialize (\<lambda>p. Inr (Pass_Initialize p context, p)))"
  by simp

lemma PatternRewritePass_Initialize_keeps_failure:
  "keeps_failure (Call_Initialize (\<lambda>p. PatternRewritePass_Initialize InitializePatterns p context))"
  by (auto simp: PatternRewritePass_Initialize_def IR_ENFORCE_def Let_def split: if_splits)

text \<open>
  C10. A freshly constructed \<^verbatim>\<open>PassExecutionState\<close> holds exactly the given
  operation pointer and analysis manager, has \<^verbatim>\<open>pass_failed\<close> false and an empty
  (default) set of preserved analyses.
\<close>

theorem C10_fresh_execution_state:
  "ir (mk_PassExecutionState i a) = i \<and>
   am (mk_PassExecutionState i a) = a \<and>
   pass_failed (mk_PassExecutionState i a) = False \<and>
   preserved_analyses (mk_PassExecutionState i a) = {}"
  by (simp add: mk_PassExecutionState_def PreservedAnalyses_default_def)

text \<open>
  C8. On a pass with no execution state installed, each of \<^verbatim>\<open>pass_state()\<close>,
  \<^verbatim>\<open>SignalPassFailure()\<close> and \<^verbatim>\<open>analysis_manager()\<close> throws the enforce
  error with the message "pass state has no value"; none of them dereferences the empty
  optional.
\<close>

theorem C8_no_state_raises:
  assumes "pass_state_m p = None"
  shows "pass_state p = Inl (EnforceNotMet ''pass state has no value'') \<and>
         SignalPassFailure p = Inl (EnforceNotMet ''pass state has no value'') \<and>
         analysis_manager p = Inl (EnforceNotMet ''pass state has no value'')"
  using assms
  by (simp add: SignalPassFailure_def analysis_manager_def pass_state_None)

theorem C8_no_state_raises_witness:
  "pass_state_m (mk_Pass ''dce'' 1 [] :: (nat, unit) Pass) = None \<and>
   pass_state (mk_Pass ''dce'' 1 [] :: (nat, unit) Pass)
     = Inl (EnforceNotMet ''pass state has no value'') \<and>
   SignalPassFailure (mk_Pass ''dce'' 1 [] :: (nat, unit) Pass)
     = Inl (EnforceNotMet ''pass state has no value'') \<and>
   analysis_manager (mk_Pass ''dce'' 1 [] :: (nat, unit) Pass)
     = Inl (EnforceNotMet ''pass state has no value'')"
proof -
  have h: "pass_state_m (mk_Pass ''dce'' 1 [] :: (nat, unit) Pass) = None"
    by (simp add: mk_Pass_def)
  from C8_no_state_raises [OF h] h show ?thesis by simp
qed

text \<open>
  C3, as stated, fails: \<^verbatim>\<open>pass_state()\<close> is a protected member that returns a
  non-const reference to the state, and \<^verbatim>\<open>pass_failed\<close> is a public member of it.
  A pass that has called \<^verbatim>\<open>SignalPassFailure\<close>, so that the flag reads true, and
  then assigns \<^verbatim>\<open>pass_state().pass_failed = false\<close> reads false afterwards.
\<close>

theorem C3_flag_reset_through_reference:
  "SignalPassFailure
     (\<lparr>pass_info_m = mk_PassInfo ''dce'' 1 [],
       pass_state_m = Some (mk_PassExecutionState (0::nat) ())\<rparr>)
   = Inr \<lparr>pass_info_m = mk_PassInfo ''dce'' 1 [],
          pass_state_m = Some ((mk_PassExecutionState (0::nat) ())\<lparr>pass_failed := True\<rparr>)\<rparr> \<and>
   read_pass_failed
     (\<lparr>pass_info_m = mk_PassInfo ''dce'' 1 [],
       pass_state_m = Some ((mk_PassExecutionState (0::nat) ())\<lparr>pass_failed := True\<rparr>)\<rparr>)
   = Inr True \<and>
   exec_calls
     (\<lparr>pass_info_m = mk_PassInfo ''dce'' 1 [],
       pass_state_m = Some ((mk_PassExecutionState (0::nat) ())\<lparr>pass_failed := True\<rparr>)\<rparr>)
     [Call_pass_state (\<lambda>st. st\<lparr>pass_failed := False\<rparr>)]
   = Inr \<lparr>pass_info_m = mk_PassInfo ''dce'' 1 [],
          pass_state_m = Some (mk_PassExecutionState (0::nat) ())\<rparr> \<and>
   read_pass_failed
     (\<lparr>pass_info_m = mk_PassInfo ''dce'' 1 [],
       pass_state_m = Some (mk_PassExecutionState (0::nat) ())\<rparr>)
   = Inr False"
  by (simp add: SignalPassFailure_def read_pass_failed_def pass_state_def IR_ENFORCE_def
      mk_PassExecutionState_def)

text \<open>
  C3, amended. Once \<^verbatim>\<open>SignalPassFailure\<close> has returned, the flag reads true; a
  second \<^verbatim>\<open>SignalPassFailure\<close> returns with the flag true, and so does any number
  of reads through \<^verbatim>\<open>pass_state()\<close>; and after every sequence of calls of the pass
  interface that has not thrown, none of which assigns false through the reference of
  \<^verbatim>\<open>pass_state()\<close> (directly, or in the body of an overriding
  \<^verbatim>\<open>Initialize\<close>), the flag still reads true.
\<close>

theorem C3_failure_stays_unless_assigned_false:
  assumes "SignalPassFailure p = Inr p'"
  shows "read_pass_failed p' = Inr True \<and>
         (\<exists>p''. SignalPassFailure p' = Inr p'' \<and> read_pass_failed p'' = Inr True) \<and>
         (\<exists>q. exec_calls p' (replicate n (Call_pass_state (\<lambda>st. st))) = Inr q \<and>
              read_pass_failed q = Inr True) \<and>
         ((\<forall>c \<in> set cs. keeps_failure c) \<and> exec_calls p' cs = Inr q' \<longrightarrow>
            read_pass_failed q' = Inr True)"
proof -
  from SignalPassFailure_Inr_failed [OF assms]
  obtain st where st: "pass_state_m p' = Some st" "pass_failed st" by blast
  have a: "read_pass_failed p' = Inr True"
    using st by (simp add: read_pass_failed_Some)
  have b: "\<exists>p''. SignalPassFailure p' = Inr p'' \<and> read_pass_failed p'' = Inr True"
    using st by (simp add: SignalPassFailure_Some read_pass_failed_Some)
  have c: "\<exists>q. exec_calls p' (replicate n (Call_pass_state (\<lambda>st. st))) = Inr q \<and>
              read_pass_failed q = Inr True"
    using exec_calls_reads [OF st(1), of n] a by simp
  have d: "read_pass_failed q' = Inr True"
    if "\<forall>c \<in> set cs. keeps_failure c" and "exec_calls p' cs = Inr q'"
    using exec_calls_keep_failed [OF that(1) st that(2)]
    by (auto simp: read_pass_failed_Some)
  from a b c d show ?thesis by blast
qed

theorem C3_failure_stays_unless_assigned_false_witness:
  "SignalPassFailure (example_pass\<lparr>pass_state_m := Some (mk_PassExecutionState 7 ())\<rparr>)
     = Inr (example_pass
              \<lparr>pass_state_m := Some ((mk_PassExecutionState 7 ())\<lparr>pass_failed := True\<rparr>)\<rparr>) \<and>
   exec_calls
     (example_pass\<lparr>pass_state_m := Some ((mk_PassExecutionState 7 ())\<lparr>pass_failed := True\<rparr>)\<rparr>)
     [Call_SignalPassFailure,
      Call_pass_state (\<lambda>st. st\<lparr>preserved_analyses := {''cse''}\<rparr>),
      Call_Initialize (\<lambda>p. PatternRewritePass_Initialize (\<lambda>context :: unit. example_patterns) p ()),
      Call_analysis_manager]
     = Inr (example_pass
              \<lparr>pass_state_m := Some ((mk_PassExecutionState 7 ())
                                       \<lparr>pass_failed := True, preserved_analyses := {''cse''}\<rparr>),
               patterns_m := FrozenRewritePatternSet example_patterns\<rparr>) \<and>
   read_pass_failed
     (example_pass
        \<lparr>pass_state_m := Some ((mk_PassExecutionState 7 ())
                                 \<lparr>pass_failed := True, preserved_analyses := {''cse''}\<rparr>),
         patterns_m := FrozenRewritePatternSet example_patterns\<rparr>) = Inr True"
proof -
  let ?p = "example_pass\<lparr>pass_state_m := Some (mk_PassExecutionState 7 ())\<rparr>"
  let ?p' = "example_pass
     \<lparr>pass_state_m := Some ((mk_PassExecutionState 7 ())\<lparr>pass_failed := True\<rparr>)\<rparr>"
  let ?cs = "[Call_SignalPassFailure,
      Call_pass_state (\<lambda>st. st\<lparr>preserved_analyses := {''cse''}\<rparr>),
      Call_Initialize (\<lambda>p. PatternRewritePass_Initialize (\<lambda>context :: unit. example_patterns) p ()),
      Call_analysis_manager]"
  let ?q = "example_pass
        \<lparr>pass_state_m := Some ((mk_PassExecutionState 7 ())
                                 \<lparr>pass_failed := True, preserved_analyses := {''cse''}\<rparr>),
         patterns_m := FrozenRewritePatternSet example_patterns\<rparr>"
  have ne: "example_patterns \<noteq> []" by (simp add: example_patterns_def)
  have h: "SignalPassFailure ?p = Inr ?p'"
    by (simp add: SignalPassFailure_def pass_state_def IR_ENFORCE_def)
  have k: "\<forall>c \<in> set ?cs. keeps_failure c"
    using PatternRewritePass_Initialize_keeps_failure
            [of "\<lambda>context :: unit. example_patterns" "()"]
    by simp
  have e: "exec_calls ?p' ?cs = Inr ?q"
    by (simp add: SignalPassFailure_def analysis_manager_def pass_state_def IR_ENFORCE_def
        PatternRewritePass_Initialize_def Empty_def ne)
  from C3_failure_stays_unless_assigned_false [OF h, of 0 ?cs ?q] k e
  have "read_pass_failed ?q = Inr True" by blast
  with h e show ?thesis by simp
qed

section \<open>Properties of \<^verbatim>\<open>PatternRewritePass\<close>\<close>

lemma Initialize_empty:
  "InitializePatterns context = [] \<Longrightarrow>
   PatternRewritePass_Initialize InitializePatterns p context
     = Inl (EnforceNotMet (no_patterns_message (pass_name p)))"
  by (simp add: PatternRewritePass_Initialize_def IR_ENFORCE_def Empty_def)

lemma Initialize_nonempty:
  "InitializePatterns context \<noteq> [] \<Longrightarrow>
   PatternRewritePass_Initialize InitializePatterns p context
     = Inr (True, p\<lparr>patterns_m := FrozenRewritePatternSet (InitializePatterns context)\<rparr>)"
  by (simp add: PatternRewritePass_Initialize_def IR_ENFORCE_def Empty_def)

text \<open>
  C1. When \<^verbatim>\<open>InitializePatterns\<close> returns an empty set, \<^verbatim>\<open>Initialize\<close> throws
  the enforce error naming the pass, and whatever the caller does after the call
  (\<^verbatim>\<open>Run\<close> in particular) is not reached; when the set is not empty,
  \<^verbatim>\<open>Initialize\<close> stores the frozen set in \<^verbatim>\<open>patterns_\<close> and returns true.
\<close>

theorem C1_empty_pattern_set_is_rejected:
  "(InitializePatterns context = [] \<longrightarrow>
      PatternRewritePass_Initialize InitializePatterns p context
        = Inl (EnforceNotMet (no_patterns_message (pass_name p))) \<and>
      and_then (PatternRewritePass_Initialize InitializePatterns p context) run
        = Inl (EnforceNotMet (no_patterns_message (pass_name p)))) \<and>
   (InitializePatterns context \<noteq> [] \<longrightarrow>
      PatternRewritePass_Initialize InitializePatterns p context
        = Inr (True, p\<lparr>patterns_m := FrozenRewritePatternSet (InitializePatterns context)\<rparr>))"
  by (simp add: Initialize_empty Initialize_nonempty and_then_def)

theorem C1_empty_pattern_set_is_rejected_witness:
  "PatternRewritePass_Initialize (\<lambda>context :: unit. []) example_pass ()
     = Inl (EnforceNotMet (no_patterns_message ''simplify_add'')) \<and>
   and_then (PatternRewritePass_Initialize (\<lambda>context :: unit. []) example_pass ())
      (\<lambda>(ok, q). Inr (PatternRewritePass_Run reset_driver region_ref initial_config q 7 example_ir))
     = Inl (EnforceNotMet (no_patterns_message ''simplify_add'')) \<and>
   PatternRewritePass_Initialize (\<lambda>context :: unit. example_patterns) example_pass ()
     = Inr (True, example_pass\<lparr>patterns_m := FrozenRewritePatternSet example_patterns\<rparr>)"
proof -
  have n: "pass_name example_pass = ''simplify_add''"
    by (simp add: example_pass_def mk_PatternRewritePass_def pass_info_def pass_name_def
        mk_PassInfo_def)
  have ne: "example_patterns \<noteq> []" by (simp add: example_patterns_def)
  from C1_empty_pattern_set_is_rejected
         [of "\<lambda>context :: unit. []" "()" example_pass
             "\<lambda>(ok, q). Inr (PatternRewritePass_Run reset_driver region_ref initial_config q 7 example_ir)"]
       C1_empty_pattern_set_is_rejected
         [of "\<lambda>context :: unit. example_patterns" "()" example_pass] n ne
  show ?thesis by (simp add: and_then_def)
qed

text \<open>
  C4. On every pass and every operation, \<^verbatim>\<open>Run\<close> is one call of the driver, on
  region 0 of the operation, with the pass's frozen patterns and the configuration in
  which top-down traversal is on and \<^verbatim>\<open>max_iterations\<close> is 10, the rest of the
  configuration being as default-constructed.
\<close>

theorem C4_run_configuration:
  "PatternRewritePass_Run driver region cfg_init p opn prog =
     driver (region opn 0) (patterns_m p)
       \<lparr>use_top_down_traversal = True, max_iterations = 10,
        \<dots> = GreedyRewriteConfig.more cfg_init\<rparr> prog"
  by (cases cfg_init) (simp add: PatternRewritePass_Run_def)




section \<open>The driver: the function and the relation agree\<close>

text \<open>
  The first match in the sorted list of candidates is the rule the relation selects, and
  that rule is unique; so one step of the relation is \<open>process_operation\<close>, and the runs
  of the relation are the results of \<open>process_worklist\<close> from the seeded worklist.
\<close>

lemma first_match_None_iff:
  "first_match cs g opn = None \<longleftrightarrow> (\<forall>c \<in> set cs. match_and_rewrite (snd c) g opn = None)"
  by (induction cs) (auto split: option.splits)

lemma first_match_Some_split:
  "first_match cs g opn = Some (i, res) \<Longrightarrow>
   \<exists>pre r post. cs = pre @ (i, r) # post \<and> match_and_rewrite r g opn = Some res \<and>
     (\<forall>c \<in> set pre. match_and_rewrite (snd c) g opn = None)"
proof (induction cs)
  case Nil
  then show ?case by simp
next
  case (Cons c cs)
  show ?case
  proof (cases "match_and_rewrite (snd c) g opn")
    case None
    with Cons.prems have "first_match cs g opn = Some (i, res)" by simp
    from Cons.IH [OF this] obtain pre r post where
      "cs = pre @ (i, r) # post" "match_and_rewrite r g opn = Some res"
      "\<forall>c \<in> set pre. match_and_rewrite (snd c) g opn = None" by blast
    with None have "c # cs = (c # pre) @ (i, r) # post \<and> match_and_rewrite r g opn = Some res \<and>
      (\<forall>c \<in> set (c # pre). match_and_rewrite (snd c) g opn = None)" by simp
    then show ?thesis by blast
  next
    case (Some a)
    with Cons.prems have "fst c = i" "a = res" by simp_all
    with Some have "c # cs = [] @ (i, snd c) # cs \<and> match_and_rewrite (snd c) g opn = Some res \<and>
      (\<forall>c \<in> set []. match_and_rewrite (snd c) g opn = None)" by auto
    then show ?thesis by blast
  qed
qed

lemma set_candidates:
  "c \<in> set (candidates ps k) \<longleftrightarrow>
   fst c < length (frozen_rules ps) \<and> snd c = frozen_rules ps ! fst c \<and> root_kind (snd c) = k"
  by (auto simp: candidates_def in_set_enumerate_eq)

lemma sorted_candidates:
  "sorted (map (\<lambda>c. - int (benefit (snd c))) (candidates ps k))"
  by (simp add: candidates_def)

lemma index_sorted_enumerate:
  "sorted_wrt (\<lambda>a b. fst a < fst b) (filter P (enumerate n xs))"
proof -
  have "sorted_wrt (<) (map fst (enumerate n xs))" by simp
  then have "sorted_wrt (\<lambda>a b. fst a < fst b) (enumerate n xs)"
    by (simp only: sorted_wrt_map)
  then show ?thesis by (rule sorted_wrt_filter)
qed

lemma candidates_order:
  assumes cs: "candidates ps k = pre @ (i, r) # post" and j: "(j, r') \<in> set post"
  shows "benefit r' < benefit r \<or> (benefit r' = benefit r \<and> i < j)"
proof -
  let ?f = "\<lambda>c::nat \<times> 'a RewritePattern. - int (benefit (snd c))"
  from sorted_candidates [of ps k] cs have "sorted (map ?f (pre @ (i, r) # post))" by simp
  with j have "?f (i, r) \<le> ?f (j, r')" by (auto simp: sorted_append)
  then have le: "benefit r' \<le> benefit r" by simp
  show ?thesis
  proof (cases "benefit r' = benefit r")
    case False
    with le show ?thesis by simp
  next
    case True
    let ?Q = "\<lambda>c. ?f c = ?f (i, r)"
    have "filter ?Q (candidates ps k) =
          filter ?Q (filter (\<lambda>c. root_kind (snd c) = k) (enumerate 0 (frozen_rules ps)))"
      unfolding candidates_def by (rule sort_key_stable)
    then have "sorted_wrt (\<lambda>a b. fst a < fst b) (filter ?Q (candidates ps k))"
      by (simp only: sorted_wrt_filter [OF index_sorted_enumerate])
    with cs have "sorted_wrt (\<lambda>a b. fst a < fst b) (filter ?Q pre @ (i, r) # filter ?Q post)"
      by simp
    moreover from j True have "(j, r') \<in> set (filter ?Q post)" by simp
    ultimately have "i < j" by (fastforce simp: sorted_wrt_append)
    with True show ?thesis by simp
  qed
qed

lemma first_match_selects:
  assumes "first_match (candidates ps k) g opn = Some (i, res)"
  shows "selects ps k g opn i \<and> match_and_rewrite (frozen_rules ps ! i) g opn = Some res"
proof -
  from first_match_Some_split [OF assms] obtain pre r post where
    cs: "candidates ps k = pre @ (i, r) # post" and
    m: "match_and_rewrite r g opn = Some res" and
    pre: "\<forall>c \<in> set pre. match_and_rewrite (snd c) g opn = None" by blast
  from cs have "(i, r) \<in> set (candidates ps k)" by simp
  then have ir: "i < length (frozen_rules ps)" "r = frozen_rules ps ! i" "root_kind r = k"
    by (auto simp: set_candidates)
  with m have mi: "matches ps k g opn i" by (simp add: matches_def)
  have "benefit (frozen_rules ps ! j) < benefit (frozen_rules ps ! i) \<or>
        (benefit (frozen_rules ps ! j) = benefit (frozen_rules ps ! i) \<and> i \<le> j)"
    if mj: "matches ps k g opn j" for j
  proof -
    from mj have "(j, frozen_rules ps ! j) \<in> set (candidates ps k)"
      by (simp add: set_candidates matches_def)
    with cs have "(j, frozen_rules ps ! j) \<in> set pre \<or> (j, frozen_rules ps ! j) = (i, r) \<or>
                  (j, frozen_rules ps ! j) \<in> set post" by auto
    then show ?thesis
    proof (elim disjE)
      assume "(j, frozen_rules ps ! j) \<in> set pre"
      with pre have "match_and_rewrite (frozen_rules ps ! j) g opn = None" by fastforce
      with mj show ?thesis by (simp add: matches_def)
    next
      assume "(j, frozen_rules ps ! j) = (i, r)"
      then show ?thesis by simp
    next
      assume "(j, frozen_rules ps ! j) \<in> set post"
      from candidates_order [OF cs this] ir(2) show ?thesis by auto
    qed
  qed
  with mi have "selects ps k g opn i" by (simp add: selects_def)
  with m ir(2) show ?thesis by simp
qed

lemma first_match_no_match:
  "first_match (candidates ps k) g opn = None \<longleftrightarrow> (\<forall>j. \<not> matches ps k g opn j)"
proof
  assume n: "first_match (candidates ps k) g opn = None"
  show "\<forall>j. \<not> matches ps k g opn j"
  proof (intro allI notI)
    fix j assume mj: "matches ps k g opn j"
    then have "(j, frozen_rules ps ! j) \<in> set (candidates ps k)"
      by (simp add: set_candidates matches_def)
    with n have "match_and_rewrite (frozen_rules ps ! j) g opn = None"
      by (fastforce simp: first_match_None_iff)
    with mj show False by (simp add: matches_def)
  qed
next
  assume a: "\<forall>j. \<not> matches ps k g opn j"
  have "match_and_rewrite (snd c) g opn = None" if "c \<in> set (candidates ps k)" for c
  proof -
    from that have "fst c < length (frozen_rules ps)" "snd c = frozen_rules ps ! fst c"
      "root_kind (snd c) = k" by (auto simp: set_candidates)
    with a [rule_format, of "fst c"] show ?thesis
      by (cases "match_and_rewrite (snd c) g opn") (auto simp: matches_def)
  qed
  then show "first_match (candidates ps k) g opn = None"
    by (simp add: first_match_None_iff)
qed

lemma selects_unique:
  assumes "selects ps k g opn i" and "selects ps k g opn i'"
  shows "i = i'"
proof -
  from assms have mi: "matches ps k g opn i" and mi': "matches ps k g opn i'"
    by (simp_all add: selects_def)
  then have "i \<in> set [0..<length (frozen_rules ps)]" "i' \<in> set [0..<length (frozen_rules ps)]"
    by (simp_all add: matches_def)
  with assms mi mi' have
    "benefit (frozen_rules ps ! i') < benefit (frozen_rules ps ! i) \<or>
       (benefit (frozen_rules ps ! i') = benefit (frozen_rules ps ! i) \<and> i \<le> i')"
    "benefit (frozen_rules ps ! i) < benefit (frozen_rules ps ! i') \<or>
       (benefit (frozen_rules ps ! i) = benefit (frozen_rules ps ! i') \<and> i' \<le> i)"
    unfolding selects_def by blast+
  then show ?thesis by auto
qed

lemma rewrite_step_process_operation:
  assumes "rewrite_step G ps s s'"
  shows "s' = process_operation G ps s"
  using assms
proof cases
  case (skip_erased opn rest)
  then show ?thesis by (simp add: process_operation_def)
next
  case (no_match opn rest)
  then have "first_match (candidates ps (operation_kind G (graph s) opn)) (graph s) opn = None"
    by (simp add: first_match_no_match)
  with no_match show ?thesis by (simp add: process_operation_def)
next
  case (apply_rule opn rest i g' touched)
  let ?k = "operation_kind G (graph s) opn"
  from apply_rule have "matches ps ?k (graph s) opn i" by (simp add: selects_def)
  then have "first_match (candidates ps ?k) (graph s) opn \<noteq> None"
    by (auto simp: first_match_no_match)
  then obtain i2 res2 where f: "first_match (candidates ps ?k) (graph s) opn = Some (i2, res2)"
    by (cases "first_match (candidates ps ?k) (graph s) opn") auto
  from first_match_selects [OF f] have
    "selects ps ?k (graph s) opn i2" "match_and_rewrite (frozen_rules ps ! i2) (graph s) opn = Some res2"
    by simp_all
  with apply_rule selects_unique [of ps ?k "graph s" opn i i2]
  have "i2 = i" "res2 = (g', touched)" by auto
  with f apply_rule show ?thesis by (simp add: process_operation_def)
qed

lemma process_operation_rewrite_step:
  assumes "worklist s \<noteq> []"
  shows "rewrite_step G ps s (process_operation G ps s)"
proof -
  from assms obtain opn rest where wl: "worklist s = opn # rest"
    by (cases "worklist s") auto
  let ?k = "operation_kind G (graph s) opn"
  show ?thesis
  proof (cases "erased G (graph s) opn")
    case True
    with wl rewrite_step.skip_erased [of s opn rest G ps] show ?thesis
      by (simp add: process_operation_def)
  next
    case False
    show ?thesis
    proof (cases "first_match (candidates ps ?k) (graph s) opn")
      case None
      then have "\<forall>j. \<not> matches ps ?k (graph s) opn j" by (simp add: first_match_no_match)
      from rewrite_step.no_match [OF wl False this] wl False None show ?thesis
        by (simp add: process_operation_def)
    next
      case (Some a)
      obtain i g' touched where a: "a = (i, g', touched)" by (cases a) auto
      from first_match_selects [of ps ?k "graph s" opn i "(g', touched)"] Some a
      have "selects ps ?k (graph s) opn i"
        "match_and_rewrite (frozen_rules ps ! i) (graph s) opn = Some (g', touched)" by simp_all
      from rewrite_step.apply_rule [OF wl False this] wl False Some a show ?thesis
        by (simp add: process_operation_def)
    qed
  qed
qed

lemma process_worklist_stop:
  "worklist s = [] \<or> bound \<le> iteration s \<Longrightarrow> process_worklist G ps bound s = Some s"
  by (subst process_worklist.simps) simp

lemma process_worklist_step:
  "worklist s \<noteq> [] \<Longrightarrow> iteration s < bound \<Longrightarrow>
   process_worklist G ps bound s = process_worklist G ps bound (process_operation G ps s)"
  by (subst process_worklist.simps) simp

lemma greedy_steps_process_worklist:
  "greedy_steps G ps bound s s' \<Longrightarrow> process_worklist G ps bound s = Some s'"
proof (induction rule: greedy_steps.induct)
  case (stop s)
  then show ?case by (rule process_worklist_stop)
next
  case (step s s' s'')
  from step.hyps(3) have "s' = process_operation G ps s"
    by (rule rewrite_step_process_operation)
  with step show ?case by (simp add: process_worklist_step)
qed

lemma greedy_steps_unfold:
  assumes ih: "\<And>G ps bound s y. pw G ps bound s = Some y \<Longrightarrow>
                 greedy_steps G ps bound s (y :: 'g DriverState)"
    and eq: "(if worklist s = [] \<or> bound \<le> iteration s then Some s
              else pw G ps bound (process_operation G ps s)) = Some s'"
  shows "greedy_steps G ps bound s s'"
proof (cases "worklist s = [] \<or> bound \<le> iteration s")
  case True
  with eq show ?thesis by (auto intro: greedy_steps.stop)
next
  case False
  with eq have "pw G ps bound (process_operation G ps s) = Some s'" by simp
  then have a: "greedy_steps G ps bound (process_operation G ps s) s'" by (rule ih)
  from False have ne: "worklist s \<noteq> []" and lt: "iteration s < bound" by simp_all
  show ?thesis
    by (rule greedy_steps.step [OF ne lt process_operation_rewrite_step [OF ne] a])
qed

lemma process_worklist_greedy_steps:
  assumes "process_worklist G ps bound s = Some s'"
  shows "greedy_steps G ps bound s s'"
  by (rule process_worklist.raw_induct [where P = greedy_steps, OF greedy_steps_unfold assms])

lemma greedy_run_ApplyPatternsGreedily:
  "greedy_run G g ps cfg r \<longleftrightarrow> ApplyPatternsGreedily G g ps cfg = Some r"
  by (auto simp: greedy_run_def ApplyPatternsGreedily_def
      dest: greedy_steps_process_worklist process_worklist_greedy_steps)

section \<open>The driver: it stops within the bound\<close>

text \<open>
  A pop either completes a sweep, and the iteration counter goes up, or leaves one
  operation less to pop in the current sweep. So the loop ends, whatever the rules do,
  and it ends with the worklist empty or with the counter at the bound.
\<close>

lemma process_operation_counts:
  assumes "worklist s \<noteq> []"
  shows "(remaining s \<le> 1 \<and> iteration (process_operation G ps s) = Suc (iteration s)) \<or>
         (1 < remaining s \<and> iteration (process_operation G ps s) = iteration s \<and>
          remaining (process_operation G ps s) = remaining s - 1)"
proof -
  from assms obtain opn rest where wl: "worklist s = opn # rest"
    by (cases "worklist s") auto
  show ?thesis
    using wl by (auto simp: process_operation_def count_pop_def split: option.splits)
qed

lemma process_worklist_returns:
  "\<exists>s'. process_worklist G ps bound s = Some s'"
proof -
  let ?R = "inv_image (less_than <*lex*> less_than) (\<lambda>s. (bound - iteration s, remaining s))"
  have "wf ?R" by (rule wf_inv_image [OF wf_lex_prod [OF wf_less_than wf_less_than]])
  then show ?thesis
  proof (induct s rule: wf_induct_rule)
    case (less s)
    show ?case
    proof (cases "worklist s = [] \<or> bound \<le> iteration s")
      case True
      then show ?thesis by (simp add: process_worklist_stop)
    next
      case False
      then have ne: "worklist s \<noteq> []" and lt: "iteration s < bound" by simp_all
      from process_operation_counts [OF ne, of G ps] lt
      have "(process_operation G ps s, s) \<in> ?R" by auto
      from less [OF this] obtain s' where
        "process_worklist G ps bound (process_operation G ps s) = Some s'" ..
      with ne lt show ?thesis by (simp add: process_worklist_step)
    qed
  qed
qed


subsection \<open>The driver on the single operation\<close>

text \<open>
  The three decreasing rules take the attribute 4 to 0 in two applications, the rule of
  higher benefit first, and the third sweep finds nothing to do. The rule that flips the
  attribute is applied once in every sweep, and the driver stops at the bound with the
  operation still on the worklist.
\<close>

lemma seed_single_op: "seed single_op_interface td g = [0]"
  by (simp add: seed_def single_op_interface_def)

lemma example_candidates:
  "candidates (FrozenRewritePatternSet example_patterns) ''add''
   = [(2, jump_rule), (0, countdown_rule), (1, reset_rule)]"
  by (simp add: candidates_def example_patterns_def countdown_rule_def reset_rule_def jump_rule_def)

lemma example_process_operation:
  "process_operation single_op_interface (FrozenRewritePatternSet example_patterns)
     \<lparr>graph = g, worklist = [0], remaining = Suc 0, iteration = n, applied = tr\<rparr>
   = (if 3 \<le> g
      then \<lparr>graph = g - 3, worklist = [0], remaining = Suc 0, iteration = Suc n,
            applied = tr @ [(0, 2)]\<rparr>
      else if 0 < g
      then \<lparr>graph = g - 1, worklist = [0], remaining = Suc 0, iteration = Suc n,
            applied = tr @ [(0, 0)]\<rparr>
      else \<lparr>graph = g, worklist = [], remaining = 0, iteration = Suc n, applied = tr\<rparr>)"
  by (simp add: process_operation_def single_op_interface_def example_candidates count_pop_def)
     (simp add: countdown_rule_def reset_rule_def jump_rule_def requeue_def)

lemma example_run:
  "ApplyPatternsGreedily single_op_interface 4 (FrozenRewritePatternSet example_patterns) run_config
   = Some \<lparr>result_graph = 0, converged = True, rule_applications = [(0, 2), (0, 0)],
           sweeps_done = 3, pending = []\<rparr>"
proof -
  have "process_worklist single_op_interface (FrozenRewritePatternSet example_patterns) 10
          \<lparr>graph = 4, worklist = [0], remaining = Suc 0, iteration = 0, applied = []\<rparr>
        = Some \<lparr>graph = 0, worklist = [], remaining = 0, iteration = 3,
                applied = [(0, 2), (0, 0)]\<rparr>"
    by (simp add: process_worklist_step process_worklist_stop example_process_operation)
  then show ?thesis
    by (simp add: ApplyPatternsGreedily_def initial_state_def seed_single_op run_config_def
        result_of_def)
qed

lemma example_run_zero:
  "ApplyPatternsGreedily single_op_interface 0 (FrozenRewritePatternSet example_patterns) run_config
   = Some \<lparr>result_graph = 0, converged = True, rule_applications = [],
           sweeps_done = 1, pending = []\<rparr>"
proof -
  have "process_worklist single_op_interface (FrozenRewritePatternSet example_patterns) 10
          \<lparr>graph = 0, worklist = [0], remaining = Suc 0, iteration = 0, applied = []\<rparr>
        = Some \<lparr>graph = 0, worklist = [], remaining = 0, iteration = 1, applied = []\<rparr>"
    by (simp add: process_worklist_step process_worklist_stop example_process_operation)
  then show ?thesis
    by (simp add: ApplyPatternsGreedily_def initial_state_def seed_single_op run_config_def
        result_of_def)
qed

lemma flip_candidates:
  "candidates (FrozenRewritePatternSet [flip_rule]) ''add'' = [(0, flip_rule)]"
  by (simp add: candidates_def flip_rule_def)

lemma flip_process_operation:
  "process_operation single_op_interface (FrozenRewritePatternSet [flip_rule])
     \<lparr>graph = g, worklist = [0], remaining = Suc 0, iteration = n, applied = tr\<rparr>
   = \<lparr>graph = \<not> g, worklist = [0], remaining = Suc 0, iteration = Suc n,
      applied = tr @ [(0, 0)]\<rparr>"
  by (simp add: process_operation_def single_op_interface_def flip_candidates count_pop_def)
     (simp add: flip_rule_def requeue_def)

lemma flip_run:
  "ApplyPatternsGreedily single_op_interface False (FrozenRewritePatternSet [flip_rule]) run_config
   = Some \<lparr>result_graph = False, converged = False, rule_applications = replicate 10 (0, 0),
           sweeps_done = 10, pending = [0]\<rparr>"
proof -
  have "process_worklist single_op_interface (FrozenRewritePatternSet [flip_rule]) 10
          \<lparr>graph = False, worklist = [0], remaining = Suc 0, iteration = 0, applied = []\<rparr>
        = Some \<lparr>graph = False, worklist = [0], remaining = Suc 0, iteration = 10,
                applied = replicate 10 (0, 0)\<rparr>"
    by (simp add: process_worklist_step process_worklist_stop flip_process_operation
        eval_nat_numeral)
  then show ?thesis
    by (simp add: ApplyPatternsGreedily_def initial_state_def seed_single_op run_config_def
        result_of_def)
qed

section \<open>Properties of the driver\<close>



text \<open>
  C6. From every region, with every frozen pattern set and every configuration, there is
  a run of the driver, and two runs give the same result: the same region and the same
  rule applications in the same order. The runs are those the relation allows, where
  the rule applied at an operation is only required to be a matching rule that no other
  matching rule beats on benefit, or on registration order at equal benefit.
\<close>

theorem C6_runs_exist_and_agree:
  "(\<exists>r. greedy_run G g ps cfg r) \<and>
   (greedy_run G g ps cfg r1 \<and> greedy_run G g ps cfg r2 \<longrightarrow>
      r1 = r2 \<and> result_graph r1 = result_graph r2 \<and>
      rule_applications r1 = rule_applications r2)"
proof
  let ?s0 = "initial_state G (use_top_down_traversal cfg) g"
  from process_worklist_returns [of G ps "nat (max_iterations cfg)" ?s0]
  obtain s where "process_worklist G ps (nat (max_iterations cfg)) ?s0 = Some s" by blast
  then have "ApplyPatternsGreedily G g ps cfg = Some (result_of s)"
    by (simp add: ApplyPatternsGreedily_def)
  then show "\<exists>r. greedy_run G g ps cfg r"
    by (auto simp: greedy_run_ApplyPatternsGreedily)
next
  show "greedy_run G g ps cfg r1 \<and> greedy_run G g ps cfg r2 \<longrightarrow>
      r1 = r2 \<and> result_graph r1 = result_graph r2 \<and>
      rule_applications r1 = rule_applications r2"
    by (auto simp: greedy_run_ApplyPatternsGreedily)
qed

theorem C6_runs_exist_and_agree_witness:
  "greedy_run single_op_interface 4 (FrozenRewritePatternSet example_patterns) run_config
     \<lparr>result_graph = 0, converged = True, rule_applications = [(0, 2), (0, 0)],
      sweeps_done = 3, pending = []\<rparr> \<and>
   \<not> greedy_run single_op_interface 4 (FrozenRewritePatternSet example_patterns) run_config
     \<lparr>result_graph = 0, converged = True, rule_applications = [(0, 0), (0, 2)],
      sweeps_done = 3, pending = []\<rparr> \<and>
   greedy_run single_op_interface False (FrozenRewritePatternSet [flip_rule]) run_config
     \<lparr>result_graph = False, converged = False, rule_applications = replicate 10 (0, 0),
      sweeps_done = 10, pending = [0]\<rparr>"
proof -
  have h: "greedy_run single_op_interface 4 (FrozenRewritePatternSet example_patterns) run_config
     \<lparr>result_graph = 0, converged = True, rule_applications = [(0, 2), (0, 0)],
      sweeps_done = 3, pending = []\<rparr>"
    by (simp add: greedy_run_ApplyPatternsGreedily example_run)
  have "\<not> greedy_run single_op_interface 4 (FrozenRewritePatternSet example_patterns) run_config
     \<lparr>result_graph = 0, converged = True, rule_applications = [(0, 0), (0, 2)],
      sweeps_done = 3, pending = []\<rparr>"
  proof
    assume a: "greedy_run single_op_interface 4 (FrozenRewritePatternSet example_patterns) run_config
     \<lparr>result_graph = 0, converged = True, rule_applications = [(0, 0), (0, 2)],
      sweeps_done = 3, pending = []\<rparr>"
    from C6_runs_exist_and_agree
           [of single_op_interface 4 "FrozenRewritePatternSet example_patterns" run_config
               "\<lparr>result_graph = 0, converged = True, rule_applications = [(0, 2), (0, 0)],
                 sweeps_done = 3, pending = []\<rparr>"
               "\<lparr>result_graph = 0, converged = True, rule_applications = [(0, 0), (0, 2)],
                 sweeps_done = 3, pending = []\<rparr>"] h a
    show False by simp
  qed
  moreover have "greedy_run single_op_interface False (FrozenRewritePatternSet [flip_rule]) run_config
     \<lparr>result_graph = False, converged = False, rule_applications = replicate 10 (0, 0),
      sweeps_done = 10, pending = [0]\<rparr>"
    by (simp add: greedy_run_ApplyPatternsGreedily flip_run)
  ultimately show ?thesis using h by simp
qed

section \<open>The Pass Manager: the order of its calls\<close>

text \<open>
  The events of a run are, pass by pass, a block of calls on that pass; the block of a
  pass whose \<^verbatim>\<open>Initialize\<close> throws has no \<^verbatim>\<open>Run\<close>, and in every block
  \<^verbatim>\<open>Run\<close> comes after a \<^verbatim>\<open>CanApplyOn\<close> that returned true. The validation of
  the dependents finds nothing exactly when every dependent names an earlier pass.
\<close>

lemma run_passes_Cons_events:
  "events (run_passes ivl ctx root k (mp # rest) prog a) = [CanApplyOn_called k False] \<or>
   events (run_passes ivl ctx root k (mp # rest) prog a)
     = [CanApplyOn_called k True, Initialize_called k] \<or>
   events (run_passes ivl ctx root k (mp # rest) prog a)
     = [CanApplyOn_called k True, Initialize_called k, Run_called k] \<or>
   (\<exists>prog' a'. events (run_passes ivl ctx root k (mp # rest) prog a)
     = [CanApplyOn_called k True, Initialize_called k, Run_called k]
       @ events (run_passes ivl ctx root (Suc k) rest prog' a'))"
  by (auto simp: Let_def split: sum.splits returns.splits prod.splits)

lemma run_passes_head_raises:
  assumes "Initialize_m (fst mp) (snd mp) ctx = Inl e"
  shows "events (run_passes ivl ctx root k (mp # rest) prog a) = [CanApplyOn_called k False] \<or>
         events (run_passes ivl ctx root k (mp # rest) prog a)
           = [CanApplyOn_called k True, Initialize_called k]"
  using assms by (simp add: Let_def)

lemma no_Run_after_raise:
  assumes "i < length ps" and "Initialize_m (fst (ps ! i)) (snd (ps ! i)) ctx = Inl e"
  shows "Run_called (k + i) \<notin> set (events (run_passes ivl ctx root k ps prog a))"
  using assms
proof (induction ps arbitrary: k i prog a)
  case Nil
  then show ?case by simp
next
  case (Cons mp rest)
  show ?case
  proof (cases i)
    case 0
    with Cons.prems have "Initialize_m (fst mp) (snd mp) ctx = Inl e" by simp
    from run_passes_head_raises [OF this, of ivl root k rest prog a] 0
    show ?thesis by auto
  next
    case (Suc i')
    with Cons.prems have i': "i' < length rest"
      "Initialize_m (fst (rest ! i')) (snd (rest ! i')) ctx = Inl e" by simp_all
    have ih: "Run_called (Suc k + i') \<notin> set (events (run_passes ivl ctx root (Suc k) rest prog' a'))"
      for prog' a' using Cons.IH [OF i'] .
    from run_passes_Cons_events [of ivl ctx root k mp rest prog a]
    show ?thesis
    proof (elim disjE exE)
      fix prog' a'
      assume "events (run_passes ivl ctx root k (mp # rest) prog a)
        = [CanApplyOn_called k True, Initialize_called k, Run_called k]
          @ events (run_passes ivl ctx root (Suc k) rest prog' a')"
      with ih [of prog' a'] Suc show ?thesis by simp
    qed (use Suc in auto)
  qed
qed

lemma CanApplyOn_before_Run:
  "Run_called j \<in> set (events (run_passes ivl ctx root k ps prog a)) \<Longrightarrow>
   \<exists>pre post. events (run_passes ivl ctx root k ps prog a) = pre @ CanApplyOn_called j True # post
     \<and> Run_called j \<in> set post"
proof (induction ps arbitrary: k prog a)
  case Nil
  then show ?case by simp
next
  case (Cons mp rest)
  let ?E = "events (run_passes ivl ctx root k (mp # rest) prog a)"
  let ?B = "[CanApplyOn_called k True, Initialize_called k, Run_called k]"
  from run_passes_Cons_events [of ivl ctx root k mp rest prog a]
  show ?case
  proof (elim disjE exE)
    assume "?E = [CanApplyOn_called k False]"
    with Cons.prems show ?thesis by simp
  next
    assume "?E = [CanApplyOn_called k True, Initialize_called k]"
    with Cons.prems show ?thesis by simp
  next
    assume e: "?E = ?B"
    with Cons.prems have "j = k" by simp
    with e have "?E = [] @ CanApplyOn_called j True # [Initialize_called k, Run_called k] \<and>
       Run_called j \<in> set [Initialize_called k, Run_called k]" by simp
    then show ?thesis by blast
  next
    fix prog' a'
    let ?R = "events (run_passes ivl ctx root (Suc k) rest prog' a')"
    assume e: "?E = ?B @ ?R"
    show ?thesis
    proof (cases "j = k")
      case True
      with e have "?E = [] @ CanApplyOn_called j True # ([Initialize_called k, Run_called k] @ ?R) \<and>
         Run_called j \<in> set ([Initialize_called k, Run_called k] @ ?R)" by simp
      then show ?thesis by blast
    next
      case False
      with e Cons.prems have "Run_called j \<in> set ?R" by simp
      from Cons.IH [OF this] obtain pre post where
        "?R = pre @ CanApplyOn_called j True # post" "Run_called j \<in> set post" by blast
      with e have "?E = (?B @ pre) @ CanApplyOn_called j True # post \<and> Run_called j \<in> set post"
        by simp
      then show ?thesis by blast
    qed
  qed
qed

lemma first_unsatisfied_None:
  "first_unsatisfied seen infos = None \<longleftrightarrow>
   (\<forall>i < length infos. \<forall>d \<in> set (dependents (infos ! i)).
      d \<in> set seen \<or> d \<in> set (map name (take i infos)))"
proof (induction infos arbitrary: seen)
  case Nil
  then show ?case by simp
next
  case (Cons x rest)
  have hd: "filter (\<lambda>d. d \<notin> set seen) (dependents x) = [] \<longleftrightarrow>
            (\<forall>d \<in> set (dependents x). d \<in> set seen)"
    by (auto simp: filter_empty_conv)
  have tl: "(\<forall>i < length rest. \<forall>d \<in> set (dependents (rest ! i)).
               d \<in> set (seen @ [name x]) \<or> d \<in> set (map name (take i rest)))
        \<longleftrightarrow> (\<forall>i < length rest. \<forall>d \<in> set (dependents ((x # rest) ! Suc i)).
               d \<in> set seen \<or> d \<in> set (map name (take (Suc i) (x # rest))))"
    by auto
  have split: "(\<forall>i < length (x # rest). P i) \<longleftrightarrow> P 0 \<and> (\<forall>i < length rest. P (Suc i))" for P
    by (auto simp: less_Suc_eq_0_disj)
  show ?case
  proof (cases "filter (\<lambda>d. d \<notin> set seen) (dependents x)")
    case Nil
    with hd have a: "\<forall>d \<in> set (dependents x). d \<in> set seen" by simp
    from Nil have "first_unsatisfied seen (x # rest) = None \<longleftrightarrow>
        first_unsatisfied (seen @ [name x]) rest = None" by simp
    also have "\<dots> \<longleftrightarrow> (\<forall>i < length rest. \<forall>d \<in> set (dependents ((x # rest) ! Suc i)).
               d \<in> set seen \<or> d \<in> set (map name (take (Suc i) (x # rest))))"
      by (simp only: Cons.IH tl)
    also from a have "\<dots> \<longleftrightarrow> (\<forall>i < length (x # rest). \<forall>d \<in> set (dependents ((x # rest) ! i)).
               d \<in> set seen \<or> d \<in> set (map name (take i (x # rest))))"
      by (subst split) simp
    finally show ?thesis .
  next
    case (Cons d ds)
    then have "d \<in> set (filter (\<lambda>d. d \<notin> set seen) (dependents x))" by simp
    then have "d \<in> set (dependents x)" "d \<notin> set seen" by simp_all
    then have "\<not> (\<forall>i < length (x # rest). \<forall>d \<in> set (dependents ((x # rest) ! i)).
               d \<in> set seen \<or> d \<in> set (map name (take i (x # rest))))"
      by (auto intro!: exI [of _ 0])
    with Cons show ?thesis by simp
  qed
qed

lemma PassManager_no_Run_after_raise:
  assumes "k < length passes"
    and "Initialize_m (fst (passes ! k)) (snd (passes ! k)) context = Inl e"
  shows "Run_called k \<notin> set (events (PassManager_Run invalidate context root passes prog a))"
proof (cases "first_unsatisfied [] (map (\<lambda>mp. pass_info (snd mp)) passes)")
  case None
  with no_Run_after_raise [OF assms, of 0 invalidate root prog a] show ?thesis
    by (simp add: PassManager_Run_def)
next
  case (Some nd)
  then show ?thesis by (cases nd) (simp add: PassManager_Run_def)
qed

text \<open>
  The manager on one pass: the call of \<^verbatim>\<open>CanApplyOn\<close> it logs carries the value the
  pass's function returned on the IR as it stood. A run on a list is the run on the
  first pass and, when that completed, the run on the rest from the IR and the analysis
  manager it left; so every call of \<^verbatim>\<open>CanApplyOn\<close> logged is the function of that
  pass on the IR that the passes before it left, and every pass reached is asked.
\<close>

lemma run_passes_single:
  "(events (run_passes ivl ctx root k [mp] prog a) = [CanApplyOn_called k False] \<and>
    \<not> CanApplyOn_m (fst mp) (snd mp) root prog \<and>
    outcome (run_passes ivl ctx root k [mp] prog a) = NotApplicable k) \<or>
   (events (run_passes ivl ctx root k [mp] prog a)
      = [CanApplyOn_called k True, Initialize_called k] \<and>
    CanApplyOn_m (fst mp) (snd mp) root prog \<and>
    outcome (run_passes ivl ctx root k [mp] prog a) \<noteq> Completed) \<or>
   (events (run_passes ivl ctx root k [mp] prog a)
      = [CanApplyOn_called k True, Initialize_called k, Run_called k] \<and>
    CanApplyOn_m (fst mp) (snd mp) root prog)"
  by (auto simp: Let_def split: sum.splits returns.splits prod.splits)

lemma run_passes_single_NotApplicable:
  "outcome (run_passes ivl ctx root k [mp] prog a) = NotApplicable j \<Longrightarrow>
   events (run_passes ivl ctx root k [mp] prog a) = [CanApplyOn_called j False]"
  by (auto simp: Let_def split: sum.splits returns.splits prod.splits if_splits)

lemma run_passes_Cons_split:
  "run_passes ivl ctx root k (mp # rest) prog a =
     (let r = run_passes ivl ctx root k [mp] prog a in
      if outcome r = Completed
      then (let r' = run_passes ivl ctx root (Suc k) rest (final_ir r) (final_am r)
            in r'\<lparr>events := events r @ events r'\<rparr>)
      else r)"
  by (simp add: Let_def split: sum.splits returns.splits prod.splits)

lemma run_passes_single_index:
  "(outcome (run_passes ivl ctx root k [mp] prog a) = Completed) =
     (outcome (run_passes ivl ctx root 0 [mp] prog a) = Completed) \<and>
   final_ir (run_passes ivl ctx root k [mp] prog a)
     = final_ir (run_passes ivl ctx root 0 [mp] prog a) \<and>
   final_am (run_passes ivl ctx root k [mp] prog a)
     = final_am (run_passes ivl ctx root 0 [mp] prog a)"
  by (simp add: Let_def split: sum.splits returns.splits prod.splits)

lemma reached_Suc:
  "reached ivl ctx root (Suc j) (mp # rest) prog a =
     (if outcome (run_passes ivl ctx root k [mp] prog a) = Completed
      then reached ivl ctx root j rest
             (final_ir (run_passes ivl ctx root k [mp] prog a))
             (final_am (run_passes ivl ctx root k [mp] prog a))
      else None)"
  using run_passes_single_index [of ivl ctx root k mp prog a]
  by (simp add: Let_def del: run_passes.simps)

lemma reached_length:
  "reached ivl ctx root j ps prog a = Some x \<Longrightarrow> j < length ps"
proof (induction ps arbitrary: j prog a)
  case Nil
  then show ?case by simp
next
  case (Cons mp rest)
  then show ?case
    by (cases j) (auto simp: Let_def split: if_splits)
qed

lemma events_Cons_cases:
  assumes "ev \<in> set (events (run_passes ivl ctx root k (mp # rest) prog a))"
  shows "ev \<in> set (events (run_passes ivl ctx root k [mp] prog a)) \<or>
         (outcome (run_passes ivl ctx root k [mp] prog a) = Completed \<and>
          ev \<in> set (events (run_passes ivl ctx root (Suc k) rest
                 (final_ir (run_passes ivl ctx root k [mp] prog a))
                 (final_am (run_passes ivl ctx root k [mp] prog a)))))"
  using assms
  by (subst (asm) run_passes_Cons_split) (auto simp: Let_def split: if_splits)

lemma CanApplyOn_called_value:
  "CanApplyOn_called j b \<in> set (events (run_passes ivl ctx root k ps prog a)) \<Longrightarrow>
   k \<le> j \<and> j - k < length ps \<and>
   (\<exists>prog' a'. reached ivl ctx root (j - k) ps prog a = Some (prog', a') \<and>
      b = CanApplyOn_m (fst (ps ! (j - k))) (snd (ps ! (j - k))) root prog')"
proof (induction ps arbitrary: k prog a)
  case Nil
  then show ?case by simp
next
  case (Cons mp rest)
  let ?r = "run_passes ivl ctx root k [mp] prog a"
  from events_Cons_cases [OF Cons.prems]
  show ?case
  proof (elim disjE conjE)
    assume "CanApplyOn_called j b \<in> set (events ?r)"
    with run_passes_single [of ivl ctx root k mp prog a]
    have "j = k \<and> b = CanApplyOn_m (fst mp) (snd mp) root prog"
      by (auto simp del: run_passes.simps)
    then show ?thesis by simp
  next
    assume c: "outcome ?r = Completed"
      and m: "CanApplyOn_called j b \<in> set (events (run_passes ivl ctx root (Suc k) rest
                 (final_ir ?r) (final_am ?r)))"
    from Cons.IH [OF m] obtain prog' a' where
      ih: "Suc k \<le> j" "j - Suc k < length rest"
        "reached ivl ctx root (j - Suc k) rest (final_ir ?r) (final_am ?r) = Some (prog', a')"
        "b = CanApplyOn_m (fst (rest ! (j - Suc k))) (snd (rest ! (j - Suc k))) root prog'"
      by blast
    from ih(1) have jk: "j - k = Suc (j - Suc k)" by simp
    from c ih(3) have "reached ivl ctx root (Suc (j - Suc k)) (mp # rest) prog a = Some (prog', a')"
      by (simp add: reached_Suc [of ivl ctx root _ mp rest prog a k] del: run_passes.simps reached.simps)
    with ih jk show ?thesis by simp
  qed
qed

lemma reached_is_consulted:
  "reached ivl ctx root j ps prog a = Some (prog', a') \<Longrightarrow>
   CanApplyOn_called (k + j) (CanApplyOn_m (fst (ps ! j)) (snd (ps ! j)) root prog')
     \<in> set (events (run_passes ivl ctx root k ps prog a))"
proof (induction ps arbitrary: j k prog a)
  case Nil
  then show ?case by simp
next
  case (Cons mp rest)
  let ?r = "run_passes ivl ctx root k [mp] prog a"
  have hd: "CanApplyOn_called k (CanApplyOn_m (fst mp) (snd mp) root prog) \<in> set (events ?r)"
    using run_passes_single [of ivl ctx root k mp prog a]
    by (auto simp del: run_passes.simps)
  show ?case
  proof (cases j)
    case 0
    with Cons.prems have "prog' = prog" by simp
    with hd 0 show ?thesis
      by (subst run_passes_Cons_split) (simp add: Let_def del: run_passes.simps)
  next
    case (Suc j')
    with Cons.prems have c: "outcome ?r = Completed"
      and r: "reached ivl ctx root j' rest (final_ir ?r) (final_am ?r) = Some (prog', a')"
      by (simp_all add: reached_Suc [of ivl ctx root _ mp rest prog a k]
          del: run_passes.simps reached.simps split: if_splits)
    from Cons.IH [OF r, of "Suc k"] c Suc show ?thesis
      by (subst run_passes_Cons_split) (simp add: Let_def del: run_passes.simps)
  qed
qed

lemma NotApplicable_logged:
  "outcome (run_passes ivl ctx root k ps prog a) = NotApplicable j \<Longrightarrow>
   CanApplyOn_called j False \<in> set (events (run_passes ivl ctx root k ps prog a))"
proof (induction ps arbitrary: k prog a)
  case Nil
  then show ?case by simp
next
  case (Cons mp rest)
  let ?r = "run_passes ivl ctx root k [mp] prog a"
  show ?case
  proof (cases "outcome ?r = Completed")
    case True
    with Cons.prems have "outcome (run_passes ivl ctx root (Suc k) rest (final_ir ?r) (final_am ?r))
        = NotApplicable j"
      by (subst (asm) run_passes_Cons_split) (simp add: Let_def del: run_passes.simps)
    from Cons.IH [OF this] True show ?thesis
      by (subst run_passes_Cons_split) (simp add: Let_def del: run_passes.simps)
  next
    case False
    with Cons.prems have o: "outcome ?r = NotApplicable j"
      by (subst (asm) run_passes_Cons_split) (simp add: Let_def del: run_passes.simps)
    from run_passes_single_NotApplicable [OF o]
    have "CanApplyOn_called j False \<in> set (events ?r)"
      by (simp del: run_passes.simps)
    with False show ?thesis
      by (subst run_passes_Cons_split) (simp add: Let_def del: run_passes.simps)
  qed
qed

subsection \<open>A manager run on the single operation\<close>

lemma greedy_driver_frame:
  assumes "greedy_driver G r ps cfg prog = Some prog'" and "r' \<noteq> r"
  shows "prog' r' = prog r'"
  using assms by (auto simp: greedy_driver_def split: option.splits)

lemma config_for_run:
  "initial_config\<lparr>use_top_down_traversal := True, max_iterations := 10\<rparr> = run_config"
  by (simp add: initial_config_def run_config_def)

lemma example_Run:
  assumes "patterns_m p = FrozenRewritePatternSet example_patterns"
  shows "PatternRewritePass_Run (greedy_driver single_op_interface) region_ref initial_config
           p 7 example_ir
         = Some (example_ir((7, 0) := 0))"
  using assms
  by (simp add: PatternRewritePass_Run_def config_for_run greedy_driver_def region_ref_def)
     (simp add: example_ir_def example_run)

lemma example_Run_again:
  assumes "patterns_m p = FrozenRewritePatternSet example_patterns"
  shows "PatternRewritePass_Run (greedy_driver single_op_interface) region_ref initial_config
           p 7 (example_ir((7, 0) := 0))
         = Some (example_ir((7, 0) := 0))"
  using assms
  by (simp add: PatternRewritePass_Run_def config_for_run greedy_driver_def region_ref_def
      example_run_zero)

lemma example_manager_rejects:
  "PassManager_Run keep_all () 7 [(example_methods [], example_pass)] example_ir ()
   = \<lparr>events = [CanApplyOn_called 0 True, Initialize_called 0],
      outcome = InitializeRaised 0 (EnforceNotMet (no_patterns_message ''simplify_add'')),
      final_ir = example_ir, final_am = ()\<rparr>"
  by (simp add: PassManager_Run_def example_methods_def PatternRewritePass_methods_def
      Pass_CanApplyOn_def Initialize_empty example_pass_def mk_PatternRewritePass_def
      pass_info_def pass_name_def mk_PassInfo_def)

lemma example_manager_runs:
  "PassManager_Run keep_all () 7 [(example_methods example_patterns, example_pass)] example_ir ()
   = \<lparr>events = [CanApplyOn_called 0 True, Initialize_called 0, Run_called 0],
      outcome = Completed, final_ir = example_ir((7, 0) := 0), final_am = ()\<rparr>"
proof -
  have ne: "example_patterns \<noteq> []" by (simp add: example_patterns_def)
  have dep: "first_unsatisfied [] [pass_info example_pass] = None"
    by (simp add: example_pass_def mk_PatternRewritePass_def pass_info_def mk_PassInfo_def)
  have "PassManager_Run keep_all () 7 [(example_methods example_patterns, example_pass)] example_ir ()
      = run_passes keep_all () 7 0 [(example_methods example_patterns, example_pass)] example_ir ()"
    unfolding PassManager_Run_def by (simp only: list.map snd_conv dep option.case)
  also have "\<dots> = \<lparr>events = [CanApplyOn_called 0 True, Initialize_called 0, Run_called 0],
      outcome = Completed, final_ir = example_ir((7, 0) := 0), final_am = ()\<rparr>"
    by (simp add: example_methods_def PatternRewritePass_methods_def Let_def
        Pass_CanApplyOn_def Initialize_nonempty ne example_Run pass_state_def IR_ENFORCE_def
        mk_PassExecutionState_def keep_all_def)
  finally show ?thesis .
qed

text \<open>
  A pass that opts out of the IR it is given is not run; after a pass that changed the
  IR, it is asked about the IR as changed.
\<close>

lemma example_single_pass:
  "run_passes keep_all () 7 k [(example_methods example_patterns, example_pass)] example_ir ()
   = \<lparr>events = [CanApplyOn_called k True, Initialize_called k, Run_called k],
      outcome = Completed, final_ir = example_ir((7, 0) := 0), final_am = ()\<rparr>"
proof -
  have ne: "example_patterns \<noteq> []" by (simp add: example_patterns_def)
  show ?thesis
    by (simp add: example_methods_def PatternRewritePass_methods_def Let_def
        Pass_CanApplyOn_def Initialize_nonempty ne example_Run pass_state_def IR_ENFORCE_def
        mk_PassExecutionState_def keep_all_def)
qed

lemma example_first_unsatisfied:
  "first_unsatisfied seen [pass_info example_pass] = None"
  "first_unsatisfied seen [pass_info example_pass, pass_info example_pass] = None"
  by (simp_all add: example_pass_def mk_PatternRewritePass_def pass_info_def mk_PassInfo_def)

lemma example_manager_opts_out:
  "PassManager_Run keep_all () 7 [(opting_out_methods example_patterns, example_pass)]
     example_ir ()
   = \<lparr>events = [CanApplyOn_called 0 False], outcome = NotApplicable 0,
      final_ir = example_ir, final_am = ()\<rparr>"
proof -
  have "PassManager_Run keep_all () 7 [(opting_out_methods example_patterns, example_pass)]
          example_ir ()
      = run_passes keep_all () 7 0 [(opting_out_methods example_patterns, example_pass)]
          example_ir ()"
    unfolding PassManager_Run_def
    by (simp only: list.map snd_conv example_first_unsatisfied option.case)
  also have "\<dots> = \<lparr>events = [CanApplyOn_called 0 False], outcome = NotApplicable 0,
      final_ir = example_ir, final_am = ()\<rparr>"
    by (simp add: opting_out_methods_def Let_def region_ref_def example_ir_def)
  finally show ?thesis .
qed

lemma example_manager_asks_about_changed_ir:
  "PassManager_Run keep_all () 7
     [(example_methods example_patterns, example_pass),
      (opting_out_methods example_patterns, example_pass)] example_ir ()
   = \<lparr>events = [CanApplyOn_called 0 True, Initialize_called 0, Run_called 0,
                CanApplyOn_called 1 True, Initialize_called 1, Run_called 1],
      outcome = Completed, final_ir = example_ir((7, 0) := 0), final_am = ()\<rparr>"
proof -
  let ?ps = "[(example_methods example_patterns, example_pass),
      (opting_out_methods example_patterns, example_pass)]"
  have ne: "example_patterns \<noteq> []" by (simp add: example_patterns_def)
  have "PassManager_Run keep_all () 7 ?ps example_ir ()
      = run_passes keep_all () 7 0 ?ps example_ir ()"
    unfolding PassManager_Run_def
    by (simp only: list.map snd_conv example_first_unsatisfied option.case)
  also have "\<dots> = (let r' = run_passes keep_all () 7 (Suc 0)
                             [(opting_out_methods example_patterns, example_pass)]
                             (example_ir((7, 0) := 0)) ()
                  in r'\<lparr>events := [CanApplyOn_called 0 True, Initialize_called 0, Run_called 0]
                                   @ events r'\<rparr>)"
    by (subst run_passes_Cons_split) (simp add: example_single_pass del: run_passes.simps)
  also have "run_passes keep_all () 7 (Suc 0)
               [(opting_out_methods example_patterns, example_pass)]
               (example_ir((7, 0) := 0)) ()
      = \<lparr>events = [CanApplyOn_called 1 True, Initialize_called 1, Run_called 1],
         outcome = Completed, final_ir = example_ir((7, 0) := 0), final_am = ()\<rparr>"
    by (simp add: opting_out_methods_def example_methods_def PatternRewritePass_methods_def
        Let_def region_ref_def Initialize_nonempty ne example_Run_again pass_state_def
        IR_ENFORCE_def mk_PassExecutionState_def keep_all_def)
  finally have f: "PassManager_Run keep_all () 7 ?ps example_ir ()
      = (let r' = \<lparr>events = [CanApplyOn_called 1 True, Initialize_called 1, Run_called 1],
                     outcome = Completed, final_ir = example_ir((7, 0) := 0), final_am = ()\<rparr>
         in r'\<lparr>events := [CanApplyOn_called 0 True, Initialize_called 0, Run_called 0]
                                   @ events r'\<rparr>)" .
  show ?thesis by (subst f) simp
qed

lemma example_reached:
  "reached keep_all () 7 1
     [(example_methods example_patterns, example_pass),
      (opting_out_methods example_patterns, example_pass)] example_ir ()
   = Some (example_ir((7, 0) := 0), ())"
proof -
  have "reached keep_all () 7 (Suc 0)
     [(example_methods example_patterns, example_pass),
      (opting_out_methods example_patterns, example_pass)] example_ir ()
   = Some (example_ir((7, 0) := 0), ())"
    by (subst reached.simps) (simp add: example_single_pass del: run_passes.simps)
  then show ?thesis by simp
qed

section \<open>Properties of the Pass Manager\<close>

text \<open>
  C2. When some pass of the list declares a dependent that is not the name of a pass
  earlier in the list, the manager ends with the configuration error and has called
  nothing: no \<^verbatim>\<open>Run\<close> of any pass has executed.
\<close>

theorem C2_unsatisfied_dependency_rejected:
  assumes "k < length passes"
    and "d \<in> set (dependents (pass_info (snd (passes ! k))))"
    and "d \<notin> set (map (\<lambda>mp. pass_name (snd mp)) (take k passes))"
  shows "(\<exists>n d'. outcome (PassManager_Run invalidate context root passes prog a)
                   = UnsatisfiedDependency n d') \<and>
         events (PassManager_Run invalidate context root passes prog a) = [] \<and>
         Run_called j \<notin> set (events (PassManager_Run invalidate context root passes prog a))"
proof -
  let ?infos = "map (\<lambda>mp. pass_info (snd mp)) passes"
  have eq: "map name (take k ?infos) = map (\<lambda>mp. pass_name (snd mp)) (take k passes)"
    by (simp add: take_map pass_name_def comp_def)
  have kl: "k < length ?infos" using assms(1) by simp
  have dk: "d \<in> set (dependents (?infos ! k))" using assms(1,2) by simp
  have nk: "\<not> (d \<in> set [] \<or> d \<in> set (map name (take k ?infos)))"
    unfolding eq using assms(3) by simp
  from kl dk nk have "\<not> (\<forall>i < length ?infos. \<forall>d \<in> set (dependents (?infos ! i)).
      d \<in> set [] \<or> d \<in> set (map name (take i ?infos)))"
    by blast
  then have "first_unsatisfied [] ?infos \<noteq> None"
    using first_unsatisfied_None [of "[]" ?infos] by blast
  then obtain n d' where "first_unsatisfied [] ?infos = Some (n, d')"
    by (cases "first_unsatisfied [] ?infos") auto
  then show ?thesis by (simp add: PassManager_Run_def)
qed

theorem C2_unsatisfied_dependency_rejected_witness:
  "PassManager_Run keep_all () 7
     [(example_methods example_patterns, mk_PatternRewritePass ''B'' 1 [''A'']),
      (example_methods example_patterns, mk_PatternRewritePass ''A'' 1 [])] example_ir ()
   = \<lparr>events = [], outcome = UnsatisfiedDependency ''B'' ''A'',
      final_ir = example_ir, final_am = ()\<rparr> \<and>
   Run_called 0 \<notin> set (events (PassManager_Run keep_all () 7
     [(example_methods example_patterns, mk_PatternRewritePass ''B'' 1 [''A'']),
      (example_methods example_patterns, mk_PatternRewritePass ''A'' 1 [])] example_ir ()))"
proof -
  let ?ps = "[(example_methods example_patterns, mk_PatternRewritePass ''B'' 1 [''A'']),
      (example_methods example_patterns, mk_PatternRewritePass ''A'' 1 [])]"
  have 1: "0 < length ?ps" by simp
  have 2: "''A'' \<in> set (dependents (pass_info (snd (?ps ! 0))))"
    by (simp add: mk_PatternRewritePass_def pass_info_def mk_PassInfo_def)
  have 3: "''A'' \<notin> set (map (\<lambda>mp. pass_name (snd mp)) (take 0 ?ps))" by simp
  have e: "PassManager_Run keep_all () 7 ?ps example_ir ()
     = \<lparr>events = [], outcome = UnsatisfiedDependency ''B'' ''A'',
        final_ir = example_ir, final_am = ()\<rparr>"
    by (simp add: PassManager_Run_def mk_PatternRewritePass_def pass_info_def mk_PassInfo_def)
  from C2_unsatisfied_dependency_rejected [OF 1 2 3, of keep_all "()" 7 example_ir "()" 0] e
  show ?thesis by simp
qed

text \<open>
  C7. The default \<^verbatim>\<open>CanApplyOn\<close> is true on every operation. In every run of the
  manager, a logged call of \<^verbatim>\<open>CanApplyOn\<close> on a pass carries what the pass's
  \<^verbatim>\<open>CanApplyOn\<close> returns on the IR as the passes before it left it; a call of
  \<^verbatim>\<open>Run\<close> on a pass comes after that call, which returned true, so a pass that
  opts out is not run; every pass the manager reaches is asked; and a pass that does not
  override \<^verbatim>\<open>CanApplyOn\<close> never opts out.
\<close>

theorem C7_CanApplyOn_decides_Run:
  "Pass_CanApplyOn p opn prog0 = True \<and>
   (CanApplyOn_called j b
      \<in> set (events (PassManager_Run invalidate context root passes prog a)) \<longrightarrow>
    j < length passes \<and>
    (\<exists>prog' a'. reached invalidate context root j passes prog a = Some (prog', a') \<and>
       b = CanApplyOn_m (fst (passes ! j)) (snd (passes ! j)) root prog')) \<and>
   (Run_called j \<in> set (events (PassManager_Run invalidate context root passes prog a)) \<longrightarrow>
    (\<exists>prog' a' pre post.
       reached invalidate context root j passes prog a = Some (prog', a') \<and>
       CanApplyOn_m (fst (passes ! j)) (snd (passes ! j)) root prog' \<and>
       events (PassManager_Run invalidate context root passes prog a)
         = pre @ CanApplyOn_called j True # post \<and>
       Run_called j \<in> set post)) \<and>
   (first_unsatisfied [] (map (\<lambda>mp. pass_info (snd mp)) passes) = None \<and>
    reached invalidate context root j passes prog a = Some (prog1, a1) \<longrightarrow>
    CanApplyOn_called j (CanApplyOn_m (fst (passes ! j)) (snd (passes ! j)) root prog1)
      \<in> set (events (PassManager_Run invalidate context root passes prog a))) \<and>
   (CanApplyOn_m (fst (passes ! j)) = Pass_CanApplyOn \<longrightarrow>
    CanApplyOn_called j False
      \<notin> set (events (PassManager_Run invalidate context root passes prog a)) \<and>
    outcome (PassManager_Run invalidate context root passes prog a) \<noteq> NotApplicable j)"
proof -
  let ?M = "PassManager_Run invalidate context root passes prog a"
  let ?R = "run_passes invalidate context root 0 passes prog a"
  have sub: "ev \<in> set (events ?R)" if "ev \<in> set (events ?M)" for ev
    using that
    by (cases "first_unsatisfied [] (map (\<lambda>mp. pass_info (snd mp)) passes)")
       (auto simp: PassManager_Run_def)
  have same: "?M = ?R"
    if "first_unsatisfied [] (map (\<lambda>mp. pass_info (snd mp)) passes) = None"
    using that by (simp add: PassManager_Run_def)
  have nonempty: "?M = ?R" if "events ?M \<noteq> [] \<or> outcome ?M = NotApplicable j"
    using that
    by (cases "first_unsatisfied [] (map (\<lambda>mp. pass_info (snd mp)) passes)")
       (auto simp: PassManager_Run_def)
  have 1: "Pass_CanApplyOn p opn prog0 = True" by (simp add: Pass_CanApplyOn_def)
  have 2: "j < length passes \<and>
    (\<exists>prog' a'. reached invalidate context root j passes prog a = Some (prog', a') \<and>
       b = CanApplyOn_m (fst (passes ! j)) (snd (passes ! j)) root prog')"
    if "CanApplyOn_called j b \<in> set (events ?M)" for b
    using CanApplyOn_called_value [OF sub [OF that]] by simp
  have 3: "\<exists>prog' a' pre post.
       reached invalidate context root j passes prog a = Some (prog', a') \<and>
       CanApplyOn_m (fst (passes ! j)) (snd (passes ! j)) root prog' \<and>
       events ?M = pre @ CanApplyOn_called j True # post \<and>
       Run_called j \<in> set post"
    if r: "Run_called j \<in> set (events ?M)"
  proof -
    from r have eq: "?M = ?R" by (intro nonempty) auto
    from CanApplyOn_before_Run [OF sub [OF r]] obtain pre post where
      pp: "events ?R = pre @ CanApplyOn_called j True # post" "Run_called j \<in> set post"
      by blast
    then have "CanApplyOn_called j True \<in> set (events ?M)" using eq by simp
    from 2 [OF this] obtain prog' a' where
      "reached invalidate context root j passes prog a = Some (prog', a')"
      "CanApplyOn_m (fst (passes ! j)) (snd (passes ! j)) root prog'" by blast
    with pp eq show ?thesis by auto
  qed
  have 4: "CanApplyOn_called j (CanApplyOn_m (fst (passes ! j)) (snd (passes ! j)) root prog1)
      \<in> set (events ?M)"
    if "first_unsatisfied [] (map (\<lambda>mp. pass_info (snd mp)) passes) = None"
      and "reached invalidate context root j passes prog a = Some (prog1, a1)"
    using reached_is_consulted [OF that(2), of 0] same [OF that(1)] by simp
  have 5: "CanApplyOn_called j False \<notin> set (events ?M) \<and> outcome ?M \<noteq> NotApplicable j"
    if d: "CanApplyOn_m (fst (passes ! j)) = Pass_CanApplyOn"
  proof -
    have a: "CanApplyOn_called j False \<notin> set (events ?M)"
    proof
      assume "CanApplyOn_called j False \<in> set (events ?M)"
      from 2 [OF this] d show False by (auto simp: Pass_CanApplyOn_def)
    qed
    have "outcome ?M \<noteq> NotApplicable j"
    proof
      assume o: "outcome ?M = NotApplicable j"
      then have eq: "?M = ?R" by (intro nonempty) simp
      with o have "outcome ?R = NotApplicable j" by simp
      from NotApplicable_logged [OF this] eq a show False by simp
    qed
    with a show ?thesis by simp
  qed
  from 1 2 3 4 5 show ?thesis by blast
qed

theorem C7_CanApplyOn_decides_Run_witness:
  "Pass_CanApplyOn example_pass (7::nat) example_ir = True \<and>
   PassManager_Run keep_all () 7
     [(example_methods example_patterns, example_pass),
      (opting_out_methods example_patterns, example_pass)] example_ir ()
   = \<lparr>events = [CanApplyOn_called 0 True, Initialize_called 0, Run_called 0,
                CanApplyOn_called 1 True, Initialize_called 1, Run_called 1],
      outcome = Completed, final_ir = example_ir((7, 0) := 0), final_am = ()\<rparr> \<and>
   reached keep_all () 7 1
     [(example_methods example_patterns, example_pass),
      (opting_out_methods example_patterns, example_pass)] example_ir ()
   = Some (example_ir((7, 0) := 0), ()) \<and>
   CanApplyOn_m (opting_out_methods example_patterns) example_pass 7 (example_ir((7, 0) := 0)) \<and>
   \<not> CanApplyOn_m (opting_out_methods example_patterns) example_pass 7 example_ir \<and>
   PassManager_Run keep_all () 7 [(opting_out_methods example_patterns, example_pass)]
     example_ir ()
   = \<lparr>events = [CanApplyOn_called 0 False], outcome = NotApplicable 0,
      final_ir = example_ir, final_am = ()\<rparr> \<and>
   Run_called 0 \<notin> set (events (PassManager_Run keep_all () 7
     [(opting_out_methods example_patterns, example_pass)] example_ir ()))"
proof -
  let ?two = "[(example_methods example_patterns, example_pass),
      (opting_out_methods example_patterns, example_pass)]"
  let ?one = "[(opting_out_methods example_patterns, example_pass)]"
  note two = C7_CanApplyOn_decides_Run
         [of example_pass "7::nat" example_ir 1 True keep_all "()" 7 ?two example_ir "()"
             example_ir "()"]
  note one = C7_CanApplyOn_decides_Run
         [of example_pass "7::nat" example_ir 0 False keep_all "()" 7 ?one example_ir "()"
             example_ir "()"]
  from two have d: "Pass_CanApplyOn example_pass (7::nat) example_ir = True" by blast
  have r: "Run_called 1 \<in> set (events (PassManager_Run keep_all () 7 ?two example_ir ()))"
    by (simp add: example_manager_asks_about_changed_ir)
  from two r
  obtain prog' a' where
    "reached keep_all () 7 1 ?two example_ir () = Some (prog', a')"
    "CanApplyOn_m (fst (?two ! 1)) (snd (?two ! 1)) 7 prog'"
    by blast
  with example_reached
  have yes: "CanApplyOn_m (opting_out_methods example_patterns) example_pass 7
               (example_ir((7, 0) := 0))"
    by simp
  have c: "CanApplyOn_called 0 False
      \<in> set (events (PassManager_Run keep_all () 7 ?one example_ir ()))"
    by (simp add: example_manager_opts_out)
  from one c
  have no: "\<not> CanApplyOn_m (opting_out_methods example_patterns) example_pass 7 example_ir"
    by auto
  have nr: "Run_called 0 \<notin> set (events (PassManager_Run keep_all () 7 ?one example_ir ()))"
    by (simp add: example_manager_opts_out)
  from d yes no nr example_manager_asks_about_changed_ir example_reached
    example_manager_opts_out
  show ?thesis by simp
qed

end
